theory Spec2Isabelle
  imports Main "HOL-Library.Product_Lexorder"
begin

section \<open>Python strings and integer formatting\<close>

text \<open>
  Strings are byte lists. The decimal digit of a value below ten, and the value of a
  digit character.
\<close>

definition digit_char :: "int \<Rightarrow> char" where
  "digit_char d = ''0123456789'' ! nat d"

definition is_digit :: "char \<Rightarrow> bool" where
  "is_digit c = (c \<in> set ''0123456789'')"

definition digit_val :: "char \<Rightarrow> int" where
  "digit_val c = of_char c - 48"

text \<open>
  \<^verbatim>\<open>str(n)\<close> for an integer that is not negative: most significant digit first, no
  leading zero.
\<close>

function str_nat :: "int \<Rightarrow> string" where
  "str_nat n = (if n < 10 then [digit_char n] else str_nat (n div 10) @ [digit_char (n mod 10)])"
  by pat_completeness auto
termination
  by (relation "measure nat") auto

declare str_nat.simps [simp del]

text \<open>\<^verbatim>\<open>str(i)\<close> for a Python integer.\<close>

definition py_str :: "int \<Rightarrow> string" where
  "py_str i = (if i < 0 then CHR ''-'' # str_nat (- i) else str_nat i)"

text \<open>
  The format specification \<^verbatim>\<open>{i:0Wd}\<close>: the sign, if any, comes first and counts towards
  the width; zeros fill the space between the sign and the digits; a value with more
  digits than the width is printed in full.
\<close>

definition zfill :: "nat \<Rightarrow> string \<Rightarrow> string" where
  "zfill w s = replicate (w - length s) (CHR ''0'') @ s"

definition fmt_0d :: "nat \<Rightarrow> int \<Rightarrow> string" where
  "fmt_0d w i =
     (if i < 0 then CHR ''-'' # zfill (w - 1) (str_nat (- i))
      else zfill w (str_nat i))"

text \<open>
  \<^verbatim>\<open>int(s)\<close> on the strings the reorder job builds. They always start with the digits
  \<^verbatim>\<open>25\<close>, so the leading sign and the surrounding white space that \<^verbatim>\<open>int\<close> accepts cannot
  occur; any character that is not a digit (the sign of a negative field) makes \<^verbatim>\<open>int\<close>
  raise ValueError, which is \<open>None\<close> here.
\<close>

definition int_of_digits :: "string \<Rightarrow> int" where
  "int_of_digits s = foldl (\<lambda>a c. 10 * a + digit_val c) 0 s"

definition py_int :: "string \<Rightarrow> int option" where
  "py_int s = (if s \<noteq> [] \<and> list_all is_digit s then Some (int_of_digits s) else None)"

text \<open>\<^verbatim>\<open>sep.join(parts)\<close>\<close>

fun join :: "string \<Rightarrow> string list \<Rightarrow> string" where
  "join sep [] = []"
| "join sep [x] = x"
| "join sep (x # y # ys) = x @ sep @ join sep (y # ys)"

text \<open>\<^verbatim>\<open>s.split(c)\<close> for a separator of one character: always at least one part.\<close>

fun split_on :: "char \<Rightarrow> string \<Rightarrow> string list" where
  "split_on c [] = [[]]"
| "split_on c (x # xs) =
     (if x = c then [] # split_on c xs
      else (case split_on c xs of
              y # ys \<Rightarrow> (x # y) # ys
            | [] \<Rightarrow> [[x]]))"

text \<open>
  \<^verbatim>\<open>pathlib.Path(s)\<close> on a POSIX system keeps of a string its root and its parts. The root is
  \<^verbatim>\<open>//\<close> for exactly two leading slashes, \<^verbatim>\<open>/\<close> for one and for three or more, and empty
  otherwise. The parts are the components between the slashes, without the empty ones and
  without those that are a single dot; a component \<^verbatim>\<open>..\<close> is kept. Two paths are equal when
  their roots and parts are.
\<close>

definition path_root :: "string \<Rightarrow> string" where
  "path_root s =
     (if take 1 s \<noteq> ''/'' then []
      else if take 2 s = ''//'' \<and> take 3 s \<noteq> ''///'' then ''//''
      else ''/'')"

definition path_parts :: "string \<Rightarrow> string list" where
  "path_parts s = filter (\<lambda>x. x \<noteq> [] \<and> x \<noteq> ''.'') (split_on (CHR ''/'') s)"

section \<open>Episode identity\<close>

text \<open>
  \<^verbatim>\<open>new_id = int(f"25{anime_id:06d}{source_order:02d}{new_index:04d}")\<close>
  (\<^verbatim>\<open>reorder_episodes_task\<close>).
\<close>

definition new_id_string :: "int \<Rightarrow> int \<Rightarrow> int \<Rightarrow> string" where
  "new_id_string anime_id source_order new_index =
     ''25'' @ fmt_0d 6 anime_id @ fmt_0d 2 source_order @ fmt_0d 4 new_index"

definition episode_new_id :: "int \<Rightarrow> int \<Rightarrow> int \<Rightarrow> int option" where
  "episode_new_id anime_id source_order new_index =
     py_int (new_id_string anime_id source_order new_index)"

section \<open>The catalog store and the database session\<close>

text \<open>
  The rows of \<^verbatim>\<open>orm_models.Episode\<close> and \<^verbatim>\<open>orm_models.AnimeSource\<close> with the columns the
  tasks read and write.
\<close>

record episode =
  ep_id :: int
  sourceId :: int
  episodeIndex :: int
  title :: string
  sourceUrl :: string
  providerEpisodeId :: string
  fetchedAt :: "int option"
  commentCount :: int
  danmakuFilePath :: "string option"

record anime_source =
  src_id :: int
  animeId :: int

text \<open>
  Exceptions. \<^verbatim>\<open>TaskSuccess\<close> is raised to end a task with a message; the three messages of
  the reorder job and the message of the bulk deletion (items processed, items deleted)
  are constructors here. Every other exception is a fault; \<open>LockWaitTimeout\<close> is the
  OperationalError whose text contains \<^verbatim>\<open>Lock wait timeout exceeded\<close>.
\<close>

datatype fault =
  ValueError | OperationalError | LockWaitTimeout | IntegrityError | OSError | RuntimeError

datatype task_message = NoEpisodes | AlreadyCorrect | Migrated nat | BulkDeleted nat nat

datatype exn = TaskSuccess task_message | Fault fault

text \<open>
  The awaited calls of \<^verbatim>\<open>reorder_episodes_task\<close>, in source order, and those of
  \<^verbatim>\<open>delete_bulk_episodes_task\<close> for the item at a position; \<open>FileOps\<close> stands for the file
  operations (\<^verbatim>\<open>mkdir\<close> and \<^verbatim>\<open>rename\<close>, or \<^verbatim>\<open>unlink\<close>) for the episode at a position, which
  are not awaited and not logged. Each of them may raise; the environment decides which,
  as a function from the call site to the fault it raises there.
\<close>

datatype site =
    ProgressStart | DisableFK | CommitDisable
  | GetSourceInfo | SelectSources | SelectEpisodes | ProgressCompute
  | FileOps nat | ProgressMigrate | Delete nat | Flush | CommitMigration
  | Rollback | RestoreFK | CommitRestore
  | ItemProgress nat | Get nat | ItemCommit nat | Pace nat

type_synonym fault_oracle = "site \<Rightarrow> fault option"

datatype dialect = MySQL | PostgreSQL | OtherDialect

text \<open>
  The state the job acts on: the source rows, the episode rows as of the last commit, the
  episode rows as the open transaction of the session sees them, the session's
  referential-integrity switch, the track files that exist, the calls that have completed
  so far and the calls that have raised so far. A file is named by the parts of its path
  below the parent of \<^verbatim>\<open>DANMAKU_BASE_DIR\<close>, joined by slashes; there are no links and no
  directories of their own in this picture, so a path with a part \<^verbatim>\<open>..\<close> names no file.
\<close>

record store =
  sources :: "anime_source list"
  committed :: "episode list"
  working :: "episode list"
  fk_checks :: bool
  files :: "string list"
  calls :: "site list"
  raised :: "site list"

text \<open>An awaited call that only may raise.\<close>

definition call :: "fault_oracle \<Rightarrow> site \<Rightarrow> store \<Rightarrow> fault option \<times> store" where
  "call flt s st =
     (case flt s of
        Some f \<Rightarrow> (Some f, st\<lparr>raised := raised st @ [s]\<rparr>)
      | None \<Rightarrow> (None, st\<lparr>calls := calls st @ [s]\<rparr>))"

text \<open>
  \<^verbatim>\<open>session.commit()\<close> with the rows staged by \<^verbatim>\<open>session.add_all\<close>: the staged rows are
  inserted, and a primary key that is taken (or staged twice) makes the commit raise
  IntegrityError; otherwise the rows of the transaction become the committed rows.
\<close>

definition pk_conflict :: "episode list \<Rightarrow> episode list \<Rightarrow> bool" where
  "pk_conflict rows adds =
     (\<not> distinct (map ep_id adds) \<or> (\<exists>e \<in> set adds. ep_id e \<in> set (map ep_id rows)))"

definition commit :: "fault_oracle \<Rightarrow> site \<Rightarrow> episode list \<Rightarrow> store \<Rightarrow> fault option \<times> store" where
  "commit flt s adds st =
     (case flt s of
        Some f \<Rightarrow> (Some f, st\<lparr>raised := raised st @ [s]\<rparr>)
      | None \<Rightarrow>
          if pk_conflict (working st) adds
          then (Some IntegrityError, st\<lparr>raised := raised st @ [s]\<rparr>)
          else (None, st\<lparr>committed := working st @ adds, working := working st @ adds,
                          calls := calls st @ [s]\<rparr>))"

text \<open>
  \<^verbatim>\<open>session.rollback()\<close>: the open transaction is discarded, also when the call itself
  raises.
\<close>

definition rollback :: "fault_oracle \<Rightarrow> store \<Rightarrow> fault option \<times> store" where
  "rollback flt st =
     (case flt Rollback of
        Some f \<Rightarrow> (Some f, st\<lparr>working := committed st, raised := raised st @ [Rollback]\<rparr>)
      | None \<Rightarrow> (None, st\<lparr>working := committed st, calls := calls st @ [Rollback]\<rparr>))"

text \<open>
  \<^verbatim>\<open>SET FOREIGN_KEY_CHECKS=...\<close> (MySQL) and \<^verbatim>\<open>SET session_replication_role = ...\<close>
  (PostgreSQL); no statement is sent on any other dialect.
\<close>

definition set_fk :: "fault_oracle \<Rightarrow> site \<Rightarrow> dialect \<Rightarrow> bool \<Rightarrow> store \<Rightarrow> fault option \<times> store" where
  "set_fk flt s d b st =
     (if d = MySQL \<or> d = PostgreSQL then
        (case flt s of
           Some f \<Rightarrow> (Some f, st\<lparr>raised := raised st @ [s]\<rparr>)
         | None \<Rightarrow> (None, st\<lparr>fk_checks := b, calls := calls st @ [s]\<rparr>))
      else (None, st))"

section \<open>The reorder job\<close>

text \<open>
  Modelled from the spec: \<^verbatim>\<open>crud.get_anime_source_info\<close> is not part of the sources at hand;
  it returns the source's record (with its \<^verbatim>\<open>animeId\<close>) or nothing when no source has the id.
\<close>

definition get_anime_source_info :: "store \<Rightarrow> int \<Rightarrow> anime_source option" where
  "get_anime_source_info st sid = find (\<lambda>s. src_id s = sid) (sources st)"

text \<open>The ids of the sources of a work, ascending.\<close>

definition all_source_ids :: "store \<Rightarrow> int \<Rightarrow> int list" where
  "all_source_ids st anime_id = sort (map src_id (filter (\<lambda>s. animeId s = anime_id) (sources st)))"

text \<open>\<^verbatim>\<open>list.index\<close>: the first position of the value, ValueError when it is absent.\<close>

fun index_of :: "'a \<Rightarrow> 'a list \<Rightarrow> nat option" where
  "index_of x [] = None"
| "index_of x (y # ys) = (if x = y then Some 0 else map_option Suc (index_of x ys))"

text \<open>The episodes of a source, ordered by \<^verbatim>\<open>(episodeIndex, id)\<close>.\<close>

definition select_episodes :: "store \<Rightarrow> int \<Rightarrow> episode list" where
  "select_episodes st sid =
     sort_key (\<lambda>e. (episodeIndex e, ep_id e)) (filter (\<lambda>e. sourceId e = sid) (working st))"

text \<open>
  Step 1 of the transaction: the work, the source order (1-based position of the source id
  among the work's source ids) and the episodes to go through.
\<close>

definition lookup_source :: "fault_oracle \<Rightarrow> int \<Rightarrow> store \<Rightarrow> (exn + int \<times> int \<times> episode list) \<times> store" where
  "lookup_source flt sid st =
     (case call flt GetSourceInfo st of
        (Some f, st1) \<Rightarrow> (Inl (Fault f), st1)
      | (None, st1) \<Rightarrow>
     (case get_anime_source_info st1 sid of
        None \<Rightarrow> (Inl (Fault ValueError), st1)
      | Some info \<Rightarrow>
     (case call flt SelectSources st1 of
        (Some f, st2) \<Rightarrow> (Inl (Fault f), st2)
      | (None, st2) \<Rightarrow>
     (case index_of sid (all_source_ids st2 (animeId info)) of
        None \<Rightarrow> (Inl (Fault ValueError), st2)
      | Some k \<Rightarrow>
     (case call flt SelectEpisodes st2 of
        (Some f, st3) \<Rightarrow> (Inl (Fault f), st3)
      | (None, st3) \<Rightarrow>
          if select_episodes st3 sid = [] then (Inl (TaskSuccess NoEpisodes), st3)
          else (Inr (animeId info, int k + 1, select_episodes st3 sid), st3))))))"

text \<open>
  The track file of a renumbered episode. \<^verbatim>\<open>Path(p).relative_to('/data')\<close> raises ValueError
  unless the root of the path is \<^verbatim>\<open>/\<close> and its first part is \<^verbatim>\<open>data\<close>; the result, the other
  parts, is here the name of the file below the parent of \<^verbatim>\<open>DANMAKU_BASE_DIR\<close>: the parts
  joined by slashes. No parts name that directory itself, which is not a file. A file that
  exists under its old name is renamed, replacing what is at the new name.
\<close>

definition track_web_path :: "int \<Rightarrow> int \<Rightarrow> string" where
  "track_web_path anime_id new_id =
     ''/data/danmaku/'' @ py_str anime_id @ ''/'' @ py_str new_id @ ''.xml''"

definition relative_to_data :: "string \<Rightarrow> string option" where
  "relative_to_data p =
     (if path_root p = ''/'' \<and> take 1 (path_parts p) = [''data'']
      then Some (join ''/'' (drop 1 (path_parts p)))
      else None)"

definition relocate ::
  "fault_oracle \<Rightarrow> nat \<Rightarrow> int \<Rightarrow> int \<Rightarrow> episode \<Rightarrow> string list \<Rightarrow> (fault + string option) \<times> string list" where
  "relocate flt i anime_id new_id old_ep fs =
     (case danmakuFilePath old_ep of
        None \<Rightarrow> (Inr None, fs)
      | Some p \<Rightarrow>
          if p = [] then (Inr None, fs)
          else
            (case relative_to_data p of
               None \<Rightarrow> (Inl ValueError, fs)
             | Some old_rel \<Rightarrow>
            (case relative_to_data (track_web_path anime_id new_id) of
               None \<Rightarrow> (Inl ValueError, fs)
             | Some new_rel \<Rightarrow>
                 if old_rel \<noteq> [] \<and> old_rel \<in> set fs \<and> old_rel \<noteq> new_rel then
                   (case flt (FileOps i) of
                      Some f \<Rightarrow> (Inl f, fs)
                    | None \<Rightarrow>
                        (Inr (Some (track_web_path anime_id new_id)),
                         List.insert new_rel (removeAll old_rel fs)))
                 else (Inr (Some (track_web_path anime_id new_id)), fs))))"

text \<open>
  Step 2, the loop over \<^verbatim>\<open>enumerate(episodes_to_migrate)\<close>, from position \<open>i\<close> (0-based) on:
  an episode that has its identity and index already is skipped; for any other the file
  is moved, the old row is staged for deletion and a row with the new identity, the new
  index and the new path for insertion. The result is the two staged lists, or the fault
  that ended the loop, and the files as they are then.
\<close>

fun plan_loop ::
  "fault_oracle \<Rightarrow> int \<Rightarrow> int \<Rightarrow> nat \<Rightarrow> episode list \<Rightarrow> string list
     \<Rightarrow> (fault + episode list \<times> episode list) \<times> string list" where
  "plan_loop flt anime_id source_order i [] fs = (Inr ([], []), fs)"
| "plan_loop flt anime_id source_order i (old_ep # rest) fs =
     (case episode_new_id anime_id source_order (int i + 1) of
        None \<Rightarrow> (Inl ValueError, fs)
      | Some new_id \<Rightarrow>
          if ep_id old_ep = new_id \<and> episodeIndex old_ep = int i + 1
          then plan_loop flt anime_id source_order (Suc i) rest fs
          else
            (case relocate flt i anime_id new_id old_ep fs of
               (Inl f, fs1) \<Rightarrow> (Inl f, fs1)
             | (Inr new_path, fs1) \<Rightarrow>
            (case plan_loop flt anime_id source_order (Suc i) rest fs1 of
               (Inl f, fs2) \<Rightarrow> (Inl f, fs2)
             | (Inr (dels, adds), fs2) \<Rightarrow>
                 (Inr (old_ep # dels,
                       old_ep\<lparr>ep_id := new_id, episodeIndex := int i + 1,
                              danmakuFilePath := new_path\<rparr> # adds),
                  fs2))))"

text \<open>Step 3: \<^verbatim>\<open>session.delete\<close> for each staged row, in order.\<close>

fun delete_all :: "fault_oracle \<Rightarrow> nat \<Rightarrow> episode list \<Rightarrow> store \<Rightarrow> fault option \<times> store" where
  "delete_all flt j [] st = (None, st)"
| "delete_all flt j (old_ep # rest) st =
     (case call flt (Delete j) st of
        (Some f, st1) \<Rightarrow> (Some f, st1)
      | (None, st1) \<Rightarrow>
          delete_all flt (Suc j) rest (st1\<lparr>working := removeAll old_ep (working st1)\<rparr>))"

text \<open>
  Deletions, flush, \<^verbatim>\<open>session.add_all\<close> and the final commit. Everything is staged in the
  open transaction; only the commit changes the committed rows.
\<close>

definition apply_plan :: "fault_oracle \<Rightarrow> episode list \<Rightarrow> episode list \<Rightarrow> store \<Rightarrow> exn \<times> store" where
  "apply_plan flt dels adds st =
     (case call flt ProgressMigrate st of
        (Some f, st1) \<Rightarrow> (Fault f, st1)
      | (None, st1) \<Rightarrow>
     (case delete_all flt 0 dels st1 of
        (Some f, st2) \<Rightarrow> (Fault f, st2)
      | (None, st2) \<Rightarrow>
     (case call flt Flush st2 of
        (Some f, st3) \<Rightarrow> (Fault f, st3)
      | (None, st3) \<Rightarrow>
     (case commit flt CommitMigration adds st3 of
        (Some f, st4) \<Rightarrow> (Fault f, st4)
      | (None, st4) \<Rightarrow> (TaskSuccess (Migrated (length adds)), st4)))))"

text \<open>The body of the inner \<^verbatim>\<open>try\<close>. It always ends by raising.\<close>

definition reorder_txn :: "fault_oracle \<Rightarrow> int \<Rightarrow> store \<Rightarrow> exn \<times> store" where
  "reorder_txn flt sid st =
     (case lookup_source flt sid st of
        (Inl e, st1) \<Rightarrow> (e, st1)
      | (Inr (anime_id, source_order, eps), st1) \<Rightarrow>
     (case call flt ProgressCompute st1 of
        (Some f, st2) \<Rightarrow> (Fault f, st2)
      | (None, st2) \<Rightarrow>
     (case plan_loop flt anime_id source_order 0 eps (files st2) of
        (Inl f, fs) \<Rightarrow> (Fault f, st2\<lparr>files := fs\<rparr>)
      | (Inr (dels, adds), fs) \<Rightarrow>
          if dels = [] then (TaskSuccess AlreadyCorrect, st2\<lparr>files := fs\<rparr>)
          else apply_plan flt dels adds (st2\<lparr>files := fs\<rparr>))))"

text \<open>
  The handlers of the inner \<^verbatim>\<open>try\<close>: \<^verbatim>\<open>except Exception\<close> (which \<^verbatim>\<open>TaskSuccess\<close> is one of) rolls
  back and raises again; \<^verbatim>\<open>finally\<close> switches the integrity checks back on and commits. An
  exception raised inside a handler replaces the one in flight.
\<close>

definition reorder_protected :: "fault_oracle \<Rightarrow> dialect \<Rightarrow> int \<Rightarrow> store \<Rightarrow> exn \<times> store" where
  "reorder_protected flt d sid st =
     (case reorder_txn flt sid st of (e, st1) \<Rightarrow>
     (case rollback flt st1 of (r, st2) \<Rightarrow>
     (case set_fk flt RestoreFK d True st2 of
        (Some f, st3) \<Rightarrow> (Fault f, st3)
      | (None, st3) \<Rightarrow>
     (case commit flt CommitRestore [] st3 of
        (Some f, st4) \<Rightarrow> (Fault f, st4)
      | (None, st4) \<Rightarrow> (case r of Some f \<Rightarrow> Fault f | None \<Rightarrow> e, st4)))))"

text \<open>
  \<^verbatim>\<open>reorder_episodes_task\<close>: the progress report, the outer \<^verbatim>\<open>try\<close> with the statement that
  switches the integrity checks off and its commit, then the inner \<^verbatim>\<open>try\<close>. The outer handler
  logs and raises again.
\<close>

definition reorder_episodes_task :: "fault_oracle \<Rightarrow> dialect \<Rightarrow> int \<Rightarrow> store \<Rightarrow> exn \<times> store" where
  "reorder_episodes_task flt d sid st =
     (case call flt ProgressStart st of
        (Some f, st0) \<Rightarrow> (Fault f, st0)
      | (None, st0) \<Rightarrow>
     (case set_fk flt DisableFK d False st0 of
        (Some f, st1) \<Rightarrow> (Fault f, st1)
      | (None, st1) \<Rightarrow>
     (case commit flt CommitDisable [] st1 of
        (Some f, st2) \<Rightarrow> (Fault f, st2)
      | (None, st2) \<Rightarrow> reorder_protected flt d sid st2)))"

section \<open>Notions used in the statements about the reorder job\<close>

text \<open>
  A step that leaves the committed rows and the sources alone and does not perform the
  final commit of the renumbering.
\<close>

definition quiet_step :: "store \<Rightarrow> store \<Rightarrow> bool" where
  "quiet_step st st' =
     (committed st' = committed st \<and> sources st' = sources st \<and>
      (\<exists>cs. calls st' = calls st @ cs \<and> CommitMigration \<notin> set cs))"

text \<open>
  The 1-based rank of a source id among the ids of the work's sources: one more than the
  number of the work's sources with a smaller id.
\<close>

definition source_rank :: "store \<Rightarrow> int \<Rightarrow> int \<Rightarrow> int" where
  "source_rank st anime_id sid =
     1 + int (length (filter (\<lambda>x. x < sid) (map src_id (filter (\<lambda>s. animeId s = anime_id) (sources st)))))"

text \<open>
  Every episode, at its 0-based position \<open>i\<close>, has the identity of position \<open>i + 1\<close> and the
  index \<open>i + 1\<close>.
\<close>

definition already_correct :: "int \<Rightarrow> int \<Rightarrow> episode list \<Rightarrow> bool" where
  "already_correct anime_id source_order eps =
     (\<forall>i < length eps.
        episode_new_id anime_id source_order (int i + 1) = Some (ep_id (eps ! i)) \<and>
        episodeIndex (eps ! i) = int i + 1)"

text \<open>
  The new row of a renumbered episode: the old row with the new identity and index; the
  path is the one the job computed.
\<close>

definition renumbered :: "episode \<Rightarrow> int \<Rightarrow> int \<Rightarrow> episode \<Rightarrow> bool" where
  "renumbered old_ep nid idx new_ep =
     (new_ep = old_ep\<lparr>ep_id := nid, episodeIndex := idx, danmakuFilePath := danmakuFilePath new_ep\<rparr>)"

text \<open>The environment in which exactly one call site raises.\<close>

definition fault_at :: "site \<Rightarrow> fault \<Rightarrow> fault_oracle" where
  "fault_at s f = (\<lambda>x. if x = s then Some f else None)"

text \<open>
  A small catalog: work 7 with the sources 1 and 2; source 2 has a first episode that is
  in place and a second one with a foreign identity and index 3. The second catalog is
  the first one after renumbering.
\<close>

definition demo_episode :: "int \<Rightarrow> int \<Rightarrow> int \<Rightarrow> string option \<Rightarrow> episode" where
  "demo_episode i s k p =
     \<lparr>ep_id = i, sourceId = s, episodeIndex = k, title = ''t'', sourceUrl = ''u'',
      providerEpisodeId = ''p'', fetchedAt = None, commentCount = 0, danmakuFilePath = p\<rparr>"

definition demo_rows :: "episode list" where
  "demo_rows = [demo_episode 25000007020001 2 1 None, demo_episode 102 2 3 None,
                demo_episode 55 1 1 None]"

definition demo_store :: store where
  "demo_store =
     \<lparr>sources = [\<lparr>src_id = 1, animeId = 7\<rparr>, \<lparr>src_id = 2, animeId = 7\<rparr>],
      committed = demo_rows, working = demo_rows, fk_checks = True, files = [], calls = [],
      raised = []\<rparr>"

definition demo_rows_done :: "episode list" where
  "demo_rows_done = [demo_episode 25000007020001 2 1 None, demo_episode 55 1 1 None,
                     demo_episode 25000007020002 2 2 None]"

definition demo_store_done :: store where
  "demo_store_done = demo_store\<lparr>committed := demo_rows_done, working := demo_rows_done\<rparr>"

section \<open>Range compression\<close>

text \<open>
  \<^verbatim>\<open>_generate_episode_range_string\<close>. The token for no episodes is the word the source
  returns, as its UTF-8 bytes.
\<close>

definition none_token :: string where
  "none_token = [CHR 0xE6, CHR 0x97, CHR 0xA0]"

text \<open>\<^verbatim>\<open>str(start) if start == end else f"{start}-{end}"\<close>\<close>

definition range_token :: "int \<Rightarrow> int \<Rightarrow> string" where
  "range_token start end = (if start = end then py_str start else py_str start @ ''-'' @ py_str end)"

text \<open>
  The loop over \<^verbatim>\<open>indices[1:]\<close> with the current run \<^verbatim>\<open>start\<close>, \<^verbatim>\<open>end\<close>, and the append
  after the loop.
\<close>

fun range_loop :: "int \<Rightarrow> int \<Rightarrow> int list \<Rightarrow> string list" where
  "range_loop start end [] = [range_token start end]"
| "range_loop start end (x # xs) =
     (if x = end + 1 then range_loop start x xs
      else range_token start end # range_loop x x xs)"

definition generate_episode_range_string :: "int list \<Rightarrow> string" where
  "generate_episode_range_string episode_indices =
     (if episode_indices = [] then none_token
      else
        (case sort (remdups episode_indices) of
           [] \<Rightarrow> none_token
         | x # rest \<Rightarrow> join '', '' (range_loop x x rest)))"

text \<open>The runs behind the tokens of the loop, as pairs of first and last index.\<close>

fun runs :: "int \<Rightarrow> int \<Rightarrow> int list \<Rightarrow> (int \<times> int) list" where
  "runs start end [] = [(start, end)]"
| "runs start end (x # xs) =
     (if x = end + 1 then runs start x xs else (start, end) # runs x x xs)"

section \<open>The episode-processing loop\<close>

text \<open>
  A comment as the scrapers deliver it: a dictionary with the packed attribute under
  \<^verbatim>\<open>p\<close> and the text under \<^verbatim>\<open>m\<close>, either of which may be missing.
\<close>

record comment =
  cm_p :: "string option"
  cm_m :: "string option"

text \<open>\<^verbatim>\<open>models.ProviderEpisodeInfo\<close>, the fields the loop reads.\<close>

record provider_episode =
  pe_title :: string
  pe_episodeId :: string
  pe_episodeIndex :: int
  pe_url :: string

text \<open>
  The exceptions that matter in \<^verbatim>\<open>_process_episode_list\<close>: the rate-limit signal with its
  \<^verbatim>\<open>retry_after_seconds\<close>, \<^verbatim>\<open>httpx.RequestError\<close>, any other exception, and the NameError
  that looking up an unbound name raises.
\<close>

datatype py_exn = RateLimitExceededError nat | RequestError | OtherException | NameError

text \<open>
  The names that the import statements of the module (lines 1 to 27) and the assignment
  of \<^verbatim>\<open>logger\<close> bind. Its other top-level statements define the task functions.
\<close>

definition module_names :: "string list" where
  "module_names =
     [''logging'', ''Callable'', ''List'', ''Optional'', ''Dict'', ''asyncio'', ''re'',
      ''traceback'', ''Path'', ''shutil'', ''io'', ''datetime'', ''timedelta'', ''timezone'',
      ''ET'', ''fuzz'', ''delete'', ''func'', ''select'', ''update'', ''text'',
      ''AsyncSession'', ''OperationalError'', ''xml_escape'', ''crud'', ''models'',
      ''orm_models'', ''RateLimiter'', ''RateLimitExceededError'', ''download_image'',
      ''settings'', ''ScraperManager'', ''MetadataSourceManager'', ''parse_search_keyword'',
      ''clean_xml_string'', ''DANMAKU_BASE_DIR'', ''TaskManager'', ''TaskSuccess'',
      ''TaskStatus'', ''logger'']"

text \<open>
  What the loop does to the outside, in order: progress reports (for the episode at a
  position; the percentage is floating point and left out), the rate limiter's check and
  increment, the fetch of an episode's comments, the sleep, the storing of an episode
  with its number of comments, the commit.
\<close>

datatype report = Processing | Paused nat | NetworkErrorSkipped | UnknownErrorSkipped

datatype event =
    Report nat report
  | CheckLimit
  | Fetch string
  | Sleep nat
  | Increment
  | Store string nat
  | Commit

text \<open>
  What the outside answers in one pass of the loop body: the check raises, or the check
  passes and the fetch raises, or the fetch returns comments (none, for \<^verbatim>\<open>None\<close> and for the
  empty list) and storing them completes or raises.
\<close>

datatype response =
    CheckRaises py_exn
  | FetchRaises py_exn
  | Fetched "comment list" "py_exn option"

record loop_state =
  idx :: nat
  total_comments_added :: nat
  failed_episodes_count :: nat
  budget_used :: nat
  events :: "event list"

text \<open>
  The \<^verbatim>\<open>except\<close> clauses of the loop body, tried in order. The first matches the rate-limit
  signal: report \<^verbatim>\<open>PAUSED\<close>, sleep, \<^verbatim>\<open>continue\<close>. For any other exception the second clause is
  tried, and evaluating its expression \<^verbatim>\<open>httpx.RequestError\<close> looks the name \<^verbatim>\<open>httpx\<close> up in
  the module; were it bound, a request error would be counted and reported as a network
  error, and any other exception likewise by the third clause.
\<close>

definition handle_exn :: "py_exn \<Rightarrow> loop_state \<Rightarrow> py_exn + loop_state" where
  "handle_exn e s =
     (case e of
        RateLimitExceededError d \<Rightarrow>
          Inr (s\<lparr>events := events s @ [Report (idx s) (Paused d), Sleep d]\<rparr>)
      | _ \<Rightarrow>
          if ''httpx'' \<notin> set module_names then Inl NameError
          else if e = RequestError then
            Inr (s\<lparr>failed_episodes_count := failed_episodes_count s + 1,
                   events := events s @ [Report (idx s) NetworkErrorSkipped],
                   idx := idx s + 1\<rparr>)
          else
            Inr (s\<lparr>failed_episodes_count := failed_episodes_count s + 1,
                   events := events s @ [Report (idx s) UnknownErrorSkipped],
                   idx := idx s + 1\<rparr>))"

text \<open>One pass of the loop body, for \<^verbatim>\<open>i < total_episodes\<close>.\<close>

definition episode_step :: "provider_episode list \<Rightarrow> response \<Rightarrow> loop_state \<Rightarrow> py_exn + loop_state" where
  "episode_step episodes r s =
     (let episode = episodes ! idx s;
          s1 = s\<lparr>events := events s @ [Report (idx s) Processing, CheckLimit]\<rparr>
      in case r of
           CheckRaises e \<Rightarrow> handle_exn e s1
         | FetchRaises e \<Rightarrow>
             handle_exn e (s1\<lparr>events := events s1 @ [Fetch (pe_episodeId episode)]\<rparr>)
         | Fetched comments stored \<Rightarrow>
             (let s2 = s1\<lparr>events := events s1 @ [Fetch (pe_episodeId episode)]\<rparr> in
              if comments \<noteq> [] then
                (case stored of
                   Some e \<Rightarrow> Inl e
                 | None \<Rightarrow>
                     Inr (s2\<lparr>budget_used := budget_used s2 + 1,
                            total_comments_added := total_comments_added s2 + length comments,
                            events := events s2 @
                              [Increment, Store (pe_episodeId episode) (length comments), Commit],
                            idx := idx s2 + 1\<rparr>))
              else Inr (s2\<lparr>idx := idx s2 + 1\<rparr>)))"

text \<open>
  The \<^verbatim>\<open>while i < total_episodes\<close> loop, driven by the answers of the outside, one per pass.
  The loop may pause any number of times, so the answers may run out before it ends:
  that is \<open>None\<close>. Otherwise the result is the exception that left the function, or the
  final state, of which the function returns the two counters.
\<close>

fun process_episode_list ::
  "provider_episode list \<Rightarrow> response list \<Rightarrow> loop_state \<Rightarrow> (py_exn + loop_state) option" where
  "process_episode_list episodes [] s =
     (if idx s < length episodes then None else Some (Inr s))"
| "process_episode_list episodes (r # rs) s =
     (if idx s < length episodes then
        (case episode_step episodes r s of
           Inl e \<Rightarrow> Some (Inl e)
         | Inr s' \<Rightarrow> process_episode_list episodes rs s')
      else Some (Inr s))"

definition initial_loop_state :: loop_state where
  "initial_loop_state =
     \<lparr>idx = 0, total_comments_added = 0, failed_episodes_count = 0, budget_used = 0, events = []\<rparr>"

text \<open>Two episodes and a comment, for the runs below.\<close>

definition demo_episodes :: "provider_episode list" where
  "demo_episodes =
     [\<lparr>pe_title = ''one'', pe_episodeId = ''e1'', pe_episodeIndex = 1, pe_url = ''u1''\<rparr>,
      \<lparr>pe_title = ''two'', pe_episodeId = ''e2'', pe_episodeIndex = 2, pe_url = ''u2''\<rparr>]"

definition demo_comment :: comment where
  "demo_comment = \<lparr>cm_p = Some ''1.5,1,25,16777215'', cm_m = Some ''hello''\<rparr>"

section \<open>Bulk deletion of episodes\<close>

text \<open>
  \<^verbatim>\<open>_delete_danmaku_file\<close>, called for the item at position \<open>i\<close>: nothing for a missing or empty
  path; otherwise the leading slashes are stripped, the rest is read as a path below the
  parent of \<^verbatim>\<open>DANMAKU_BASE_DIR\<close>, and the file, if it exists, is removed. The function catches
  every exception itself: when the removal raises, the file stays and nothing is raised.
\<close>

definition delete_danmaku_file ::
  "fault_oracle \<Rightarrow> nat \<Rightarrow> string option \<Rightarrow> string list \<Rightarrow> string list" where
  "delete_danmaku_file flt i p fs =
     (case p of
        None \<Rightarrow> fs
      | Some s \<Rightarrow>
          if s = [] then fs
          else
            (let relative_path = join ''/'' (path_parts (dropWhile (\<lambda>c. c = CHR ''/'') s))
             in if relative_path \<noteq> [] \<and> relative_path \<in> set fs
                then (case flt (FileOps i) of
                        Some f \<Rightarrow> fs
                      | None \<Rightarrow> removeAll relative_path fs)
                else fs))"

text \<open>
  The loop of \<^verbatim>\<open>delete_bulk_episodes_task\<close> over \<^verbatim>\<open>enumerate(episodeIds)\<close>, from position \<open>i\<close> on:
  progress report, \<^verbatim>\<open>session.get\<close>, and for an episode that exists the removal of its file,
  \<^verbatim>\<open>session.delete\<close>, the commit of this one deletion and the short sleep. The result is the
  number of deleted episodes or the fault that ended the loop. There is no second attempt
  for an item.
\<close>

fun bulk_loop :: "fault_oracle \<Rightarrow> nat \<Rightarrow> int list \<Rightarrow> nat \<Rightarrow> store \<Rightarrow> (fault + nat) \<times> store" where
  "bulk_loop flt i [] deleted_count st = (Inr deleted_count, st)"
| "bulk_loop flt i (episode_id # rest) deleted_count st =
     (case call flt (ItemProgress i) st of
        (Some f, st1) \<Rightarrow> (Inl f, st1)
      | (None, st1) \<Rightarrow>
     (case call flt (Get i) st1 of
        (Some f, st2) \<Rightarrow> (Inl f, st2)
      | (None, st2) \<Rightarrow>
     (case find (\<lambda>e. ep_id e = episode_id) (working st2) of
        None \<Rightarrow> bulk_loop flt (Suc i) rest deleted_count st2
      | Some episode \<Rightarrow>
     (case call flt (Delete i)
             (st2\<lparr>files := delete_danmaku_file flt i (danmakuFilePath episode) (files st2)\<rparr>) of
        (Some f, st3) \<Rightarrow> (Inl f, st3)
      | (None, st3) \<Rightarrow>
     (case commit flt (ItemCommit i) [] (st3\<lparr>working := removeAll episode (working st3)\<rparr>) of
        (Some f, st4) \<Rightarrow> (Inl f, st4)
      | (None, st4) \<Rightarrow>
          bulk_loop flt (Suc i) rest (Suc deleted_count)
            (st4\<lparr>calls := calls st4 @ [Pace i]\<rparr>))))))"

text \<open>
  The task: the first progress report, then the loop inside \<^verbatim>\<open>try\<close>; \<^verbatim>\<open>TaskSuccess\<close> passes
  through, any other exception is answered with a rollback and raised again.
\<close>

definition delete_bulk_episodes_task :: "fault_oracle \<Rightarrow> int list \<Rightarrow> store \<Rightarrow> exn \<times> store" where
  "delete_bulk_episodes_task flt episodeIds st =
     (case call flt ProgressStart st of
        (Some f, st0) \<Rightarrow> (Fault f, st0)
      | (None, st0) \<Rightarrow>
     (case bulk_loop flt 0 episodeIds 0 st0 of
        (Inr deleted_count, st1) \<Rightarrow>
          (TaskSuccess (BulkDeleted (length episodeIds) deleted_count), st1)
      | (Inl f, st1) \<Rightarrow>
     (case rollback flt st1 of
        (Some f', st2) \<Rightarrow> (Fault f', st2)
      | (None, st2) \<Rightarrow> (Fault f, st2))))"

text \<open>The rows that remain when the rows with the given ids are gone.\<close>

definition without_ids :: "int list \<Rightarrow> episode list \<Rightarrow> episode list" where
  "without_ids ids rows = filter (\<lambda>e. ep_id e \<notin> set ids) rows"

text \<open>
  The calls that the items of a batch complete when none of them raises, from position \<open>i\<close>
  on and over the given rows: report and lookup for every item, and for an item whose
  episode exists also the deletion, the commit and the pause.
\<close>

fun completed_calls :: "nat \<Rightarrow> int list \<Rightarrow> episode list \<Rightarrow> site list" where
  "completed_calls i [] rows = []"
| "completed_calls i (x # xs) rows =
     (if x \<in> ep_id ` set rows
      then [ItemProgress i, Get i, Delete i, ItemCommit i, Pace i]
      else [ItemProgress i, Get i]) @
     completed_calls (Suc i) xs (filter (\<lambda>e. ep_id e \<noteq> x) rows)"

text \<open>A source with three episodes, the first of which has a track file.\<close>

definition bulk_rows :: "episode list" where
  "bulk_rows = [demo_episode 11 1 1 (Some ''/danmaku/7/11.xml''), demo_episode 12 1 2 None,
                demo_episode 13 1 3 None]"

definition bulk_store :: store where
  "bulk_store =
     \<lparr>sources = [\<lparr>src_id = 1, animeId = 7\<rparr>], committed = bulk_rows, working = bulk_rows,
      fk_checks = True, files = [''danmaku/7/11.xml''], calls = [], raised = []\<rparr>"

section \<open>The comment codec\<close>

text \<open>The double quote character.\<close>

definition dq :: char where "dq = CHR 0x22"

text \<open>
  \<^verbatim>\<open>xml.sax.saxutils.escape\<close> replaces \<^verbatim>\<open>&\<close>, \<^verbatim>\<open>>\<close> and \<^verbatim>\<open><\<close>, the ampersand first, which comes to
  replacing each character on its own.
\<close>

definition xml_escape_char :: "char \<Rightarrow> string" where
  "xml_escape_char c =
     (if c = CHR ''&'' then ''&amp;''
      else if c = CHR ''>'' then ''&gt;''
      else if c = CHR ''<'' then ''&lt;''
      else [c])"

definition xml_escape :: "string \<Rightarrow> string" where
  "xml_escape s = concat (map xml_escape_char s)"

text \<open>
  The number of core parts of a packed attribute: the position of the first part that
  contains both brackets, or the number of parts when there is none.
\<close>

fun core_parts_count :: "string list \<Rightarrow> nat" where
  "core_parts_count [] = 0"
| "core_parts_count (part # rest) =
     (if CHR ''['' \<in> set part \<and> CHR '']'' \<in> set part then 0
      else Suc (core_parts_count rest))"

text \<open>The packed attribute of a comment that has none.\<close>

definition default_p :: string where
  "default_p = ''0,1,25,16777215''"

text \<open>
  The attribute as \<^verbatim>\<open>_generate_dandan_xml\<close> writes it: with exactly 3 core parts the size
  \<^verbatim>\<open>25\<close> is inserted at position 2 and the parts are joined again.
\<close>

definition emitted_p :: "comment \<Rightarrow> string" where
  "emitted_p c =
     (let p_attr = (case cm_p c of None \<Rightarrow> default_p | Some p \<Rightarrow> p);
          p_parts = split_on (CHR '','') p_attr
      in if core_parts_count p_parts = 3
         then join '','' (take 2 p_parts @ [''25''] @ drop 2 p_parts)
         else p_attr)"

text \<open>The line of one comment; only the text is escaped, the attribute is written as it is.\<close>

definition xml_entry :: "comment \<Rightarrow> string" where
  "xml_entry c =
     ''  <d p='' @ [dq] @ emitted_p c @ [dq] @ ''>'' @
     xml_escape (case cm_m c of None \<Rightarrow> [] | Some m \<Rightarrow> m) @ ''</d>''"

text \<open>The seven lines before the comments.\<close>

definition xml_header :: "nat \<Rightarrow> string list" where
  "xml_header n =
     [''<?xml version='' @ [dq] @ ''1.0'' @ [dq] @ '' encoding='' @ [dq] @ ''UTF-8'' @ [dq] @ ''?>'',
      ''<i>'',
      ''  <chatserver>danmu</chatserver>'',
      ''  <chatid>0</chatid>'',
      ''  <mission>0</mission>'',
      ''  <maxlimit>'' @ py_str (int n) @ ''</maxlimit>'',
      ''  <source>kuyun</source>'']"

text \<open>\<^verbatim>\<open>_generate_dandan_xml\<close>: header, one line per comment, closing tag, joined by newlines.\<close>

definition generate_dandan_xml :: "comment list \<Rightarrow> string" where
  "generate_dandan_xml comments =
     join [CHR 0x0A] (xml_header (length comments) @ map xml_entry comments @ [''</i>''])"

text \<open>
  Strings are the UTF-8 bytes of the Python strings. A byte below \<open>0x80\<close> is a character of
  its own; the first byte of any other character tells how many bytes it has, the others
  are continuation bytes, and the second byte is bounded so that no character is written
  longer than need be, none lies in the surrogate range and none beyond U+10FFFF.
\<close>

definition ascii :: "char \<Rightarrow> bool" where
  "ascii c = ((of_char c :: nat) < 0x80)"

definition utf8_len :: "char \<Rightarrow> nat" where
  "utf8_len c =
     (if (of_char c :: nat) < 0x80 then 1
      else if (0xC2 :: nat) \<le> of_char c \<and> (of_char c :: nat) \<le> 0xDF then 2
      else if (0xE0 :: nat) \<le> of_char c \<and> (of_char c :: nat) \<le> 0xEF then 3
      else if (0xF0 :: nat) \<le> of_char c \<and> (of_char c :: nat) \<le> 0xF4 then 4
      else 0)"

definition is_cont :: "char \<Rightarrow> bool" where
  "is_cont c = ((0x80 :: nat) \<le> of_char c \<and> (of_char c :: nat) \<le> 0xBF)"

definition second_ok :: "char \<Rightarrow> char \<Rightarrow> bool" where
  "second_ok l c =
     (is_cont c \<and>
      (if l = CHR 0xE0 then (0xA0 :: nat) \<le> of_char c
       else if l = CHR 0xED then (of_char c :: nat) \<le> 0x9F
       else if l = CHR 0xF0 then (0x90 :: nat) \<le> of_char c
       else if l = CHR 0xF4 then (of_char c :: nat) \<le> 0x8F
       else True))"

text \<open>The bytes of one character.\<close>

definition utf8_char :: "string \<Rightarrow> bool" where
  "utf8_char bs =
     (case bs of
        [c] \<Rightarrow> utf8_len c = 1
      | [c, c1] \<Rightarrow> utf8_len c = 2 \<and> second_ok c c1
      | [c, c1, c2] \<Rightarrow> utf8_len c = 3 \<and> second_ok c c1 \<and> is_cont c2
      | [c, c1, c2, c3] \<Rightarrow> utf8_len c = 4 \<and> second_ok c c1 \<and> is_cont c2 \<and> is_cont c3
      | _ \<Rightarrow> False)"

text \<open>A string of characters each of which, as its bytes, satisfies the given condition.\<close>

fun utf8_chars :: "(string \<Rightarrow> bool) \<Rightarrow> string \<Rightarrow> bool" where
  "utf8_chars ok [] = True"
| "utf8_chars ok (c # s) =
     (utf8_char (c # take (utf8_len c - 1) s) \<and> ok (c # take (utf8_len c - 1) s) \<and>
      utf8_chars ok (drop (utf8_len c - 1) s))"

text \<open>
  The encoding of a Python string without lone surrogates. A string with a lone surrogate
  has no encoding: the parser raises UnicodeEncodeError when it is fed one.
\<close>

definition utf8_valid :: "string \<Rightarrow> bool" where
  "utf8_valid s = utf8_chars (\<lambda>bs. True) s"

text \<open>The code points U+FFFE and U+FFFF, which no XML document may contain.\<close>

definition nonchar :: "string \<Rightarrow> bool" where
  "nonchar bs = (bs = [CHR 0xEF, CHR 0xBF, CHR 0xBE] \<or> bs = [CHR 0xEF, CHR 0xBF, CHR 0xBF])"

text \<open>
  Reading a character byte by byte: after the bytes read so far, the next byte leaves the
  character pending, completes it, completes one of the two forbidden code points, or
  shows that the bytes are no UTF-8.
\<close>

datatype utf8_result = Pending string | Complete string | Forbidden | Invalid

definition utf8_feed :: "string \<Rightarrow> char \<Rightarrow> utf8_result" where
  "utf8_feed p c =
     (case p of
        [] \<Rightarrow> if 2 \<le> utf8_len c then Pending [c] else Invalid
      | [l] \<Rightarrow>
          if \<not> second_ok l c then Invalid
          else if utf8_len l = 2 then Complete [l, c]
          else Pending [l, c]
      | [l, c1] \<Rightarrow>
          if \<not> is_cont c then Invalid
          else if utf8_len l = 3 then
            (if nonchar [l, c1, c] then Forbidden else Complete [l, c1, c])
          else Pending [l, c1, c]
      | [l, c1, c2] \<Rightarrow> if is_cont c then Complete [l, c1, c2, c] else Invalid
      | _ \<Rightarrow> Invalid)"

text \<open>
  \<^verbatim>\<open>ET.iterparse(stream, events=('end',))\<close> is library code. It is modelled here as a machine
  that reads the document byte by byte and reports an element when its end tag closes,
  with the attributes of its start tag and the text between the start tag and the first
  child or the end tag (nothing, when there is no such text). The machine covers a byte
  order mark and the declaration that \<^verbatim>\<open>_generate_dandan_xml\<close> writes, both at the very start,
  elements with double-quoted attributes, character data and the five predefined
  entities. It reports as not well-formed: a control character other than tab, newline
  and carriage return, U+FFFE and U+FFFF, \<^verbatim>\<open>]]>\<close> in character data, \<^verbatim>\<open><\<close> in an attribute
  value, a repeated attribute, an end tag that does not match, text outside the root, a
  second root and an incomplete document. Everything else of XML (comments, processing
  instructions, any other declaration, CDATA, DOCTYPE, character references, other
  entities, references in attribute values, single-quoted attributes, empty-element tags,
  white space inside tags other than between attributes, carriage returns, names with a
  colon or outside ASCII, \<^verbatim>\<open>xmlns\<close> attributes) makes the machine stop as not modelled.
\<close>

datatype xml_mode =
  Begin | AfterBom | BeginLt | Decl | Content | Lt | STag | Attrs | AName | AEq | AVal | AEnd
  | ETag | Ent

datatype xml_status = Running | Malformed | Unsupported

text \<open>An element that is open: its tag, attributes, text so far, and whether a child has begun.\<close>

record open_elem =
  oe_tag :: string
  oe_attrs :: "(string \<times> string) list"
  oe_text :: "string option"
  oe_text_done :: bool

type_synonym xml_event = "string \<times> (string \<times> string) list \<times> string option"

text \<open>
  The state of the machine: status, mode, the open elements (innermost first), the
  elements reported so far, the name, attribute name, attribute value or entity name
  being read with the attributes of the start tag being read, the number of closing
  square brackets that the character data read last ends with, and the bytes of a
  character that is not complete yet.
\<close>

record xml_parser =
  xp_status :: xml_status
  xp_mode :: xml_mode
  xp_stack :: "open_elem list"
  xp_out :: "xml_event list"
  xp_acc :: string
  xp_tag :: string
  xp_attrs :: "(string \<times> string) list"
  xp_aname :: string
  xp_root_done :: bool
  xp_rsqb :: nat
  xp_utf :: string

definition is_ws :: "char \<Rightarrow> bool" where
  "is_ws c = (c = CHR '' '' \<or> c = CHR 0x09 \<or> c = CHR 0x0A)"

definition valid_char :: "char \<Rightarrow> bool" where
  "valid_char c = ((0x20 :: nat) \<le> of_char c \<or> c = CHR 0x09 \<or> c = CHR 0x0A \<or> c = CHR 0x0D)"

definition name_start :: "char \<Rightarrow> bool" where
  "name_start c =
     (((0x61 :: nat) \<le> of_char c \<and> (of_char c :: nat) \<le> 0x7A) \<or>
      ((0x41 :: nat) \<le> of_char c \<and> (of_char c :: nat) \<le> 0x5A) \<or>
      c = CHR ''_'')"

definition name_char :: "char \<Rightarrow> bool" where
  "name_char c = (name_start c \<or> is_digit c \<or> c = CHR ''-'' \<or> c = CHR ''.'')"

definition xp_fail :: "xml_parser \<Rightarrow> xml_parser" where
  "xp_fail st = st\<lparr>xp_status := Malformed\<rparr>"

definition xp_unsup :: "xml_parser \<Rightarrow> xml_parser" where
  "xp_unsup st = st\<lparr>xp_status := Unsupported\<rparr>"

text \<open>Back to reading content, with nothing being read.\<close>

definition to_content :: "xml_parser \<Rightarrow> xml_parser" where
  "to_content st =
     st\<lparr>xp_mode := Content, xp_acc := [], xp_tag := [], xp_attrs := [], xp_aname := [],
        xp_rsqb := 0\<rparr>"

text \<open>
  Character data: outside the root only white space is allowed; inside, it belongs to
  the text of the innermost open element until that element has a child.
\<close>

definition add_text :: "char \<Rightarrow> xml_parser \<Rightarrow> xml_parser" where
  "add_text c st =
     (case xp_stack st of
        [] \<Rightarrow> if is_ws c then st else xp_fail st
      | e # rest \<Rightarrow>
          if oe_text_done e then st
          else st\<lparr>xp_stack :=
                 e\<lparr>oe_text := Some ((case oe_text e of None \<Rightarrow> [] | Some t \<Rightarrow> t) @ [c])\<rparr> # rest\<rparr>)"

definition open_element :: "string \<Rightarrow> (string \<times> string) list \<Rightarrow> xml_parser \<Rightarrow> xml_parser" where
  "open_element tag attrs st =
     (if xp_stack st = [] \<and> xp_root_done st then xp_fail st
      else to_content
             (st\<lparr>xp_stack :=
                   \<lparr>oe_tag = tag, oe_attrs = attrs, oe_text = None, oe_text_done = False\<rparr> #
                   (case xp_stack st of
                      [] \<Rightarrow> []
                    | e # rest \<Rightarrow> e\<lparr>oe_text_done := True\<rparr> # rest)\<rparr>))"

definition close_element :: "string \<Rightarrow> xml_parser \<Rightarrow> xml_parser" where
  "close_element name st =
     (case xp_stack st of
        [] \<Rightarrow> xp_fail st
      | e # rest \<Rightarrow>
          if oe_tag e = name then
            to_content
              (st\<lparr>xp_stack := rest,
                  xp_out := xp_out st @ [(oe_tag e, oe_attrs e, oe_text e)],
                  xp_root_done := (rest = [])\<rparr>)
          else xp_fail st)"

definition entity_char :: "string \<Rightarrow> char option" where
  "entity_char name =
     (if name = ''amp'' then Some (CHR ''&'')
      else if name = ''lt'' then Some (CHR ''<'')
      else if name = ''gt'' then Some (CHR ''>'')
      else if name = ''quot'' then Some dq
      else if name = ''apos'' then Some (CHR 0x27)
      else None)"

text \<open>The declaration that the generator writes, after its first two characters.\<close>

definition decl_rest :: string where
  "decl_rest = ''xml version='' @ [dq] @ ''1.0'' @ [dq] @ '' encoding='' @ [dq] @ ''UTF-8'' @ [dq] @ ''?>''"

text \<open>
  One byte of a character of several bytes. Such characters are read in character data
  and in attribute values; at the very start the byte order mark is read and nothing else.
\<close>

definition utf_step :: "xml_parser \<Rightarrow> char \<Rightarrow> xml_parser" where
  "utf_step st c =
     (if xp_mode st \<noteq> Begin \<and> xp_mode st \<noteq> AfterBom \<and> xp_mode st \<noteq> Content \<and>
         xp_mode st \<noteq> AVal
      then xp_unsup st
      else case utf8_feed (xp_utf st) c of
        Invalid \<Rightarrow> xp_unsup st
      | Forbidden \<Rightarrow> xp_fail st
      | Pending p \<Rightarrow> st\<lparr>xp_utf := p\<rparr>
      | Complete bs \<Rightarrow>
          if xp_mode st = Begin then
            (if bs = [CHR 0xEF, CHR 0xBB, CHR 0xBF] then st\<lparr>xp_mode := AfterBom, xp_utf := []\<rparr>
             else xp_fail st)
          else if xp_mode st = AfterBom then xp_fail st
          else if xp_mode st = Content then
            foldl (\<lambda>s b. add_text b s) (st\<lparr>xp_rsqb := 0, xp_utf := []\<rparr>) bs
          else st\<lparr>xp_acc := xp_acc st @ bs, xp_utf := []\<rparr>)"

text \<open>One byte.\<close>

definition xml_step :: "xml_parser \<Rightarrow> char \<Rightarrow> xml_parser" where
  "xml_step st c =
     (if xp_status st \<noteq> Running then st
      else if xp_utf st \<noteq> [] \<or> \<not> ascii c then utf_step st c
      else if \<not> valid_char c then xp_fail st
      else if c = CHR 0x0D then xp_unsup st
      else case xp_mode st of
        Begin \<Rightarrow>
          if c = CHR ''<'' then st\<lparr>xp_mode := BeginLt\<rparr>
          else if is_ws c then to_content st
          else xp_fail st
      | AfterBom \<Rightarrow>
          if c = CHR ''<'' then st\<lparr>xp_mode := BeginLt\<rparr>
          else if is_ws c then to_content st
          else xp_fail st
      | BeginLt \<Rightarrow>
          if c = CHR ''?'' then st\<lparr>xp_mode := Decl, xp_acc := []\<rparr>
          else if name_start c then st\<lparr>xp_mode := STag, xp_acc := [c]\<rparr>
          else if c = CHR ''!'' \<or> c = CHR '':'' then xp_unsup st
          else xp_fail st
      | Decl \<Rightarrow>
          if xp_acc st @ [c] = decl_rest then to_content st
          else if take (length (xp_acc st @ [c])) decl_rest = xp_acc st @ [c]
          then st\<lparr>xp_acc := xp_acc st @ [c]\<rparr>
          else xp_unsup st
      | Content \<Rightarrow>
          if c = CHR ''<'' then st\<lparr>xp_mode := Lt\<rparr>
          else if c = CHR ''&'' then
            (if xp_stack st = [] then xp_fail st else st\<lparr>xp_mode := Ent, xp_acc := []\<rparr>)
          else if c = CHR '']'' then add_text c (st\<lparr>xp_rsqb := Suc (xp_rsqb st)\<rparr>)
          else if c = CHR ''>'' \<and> 2 \<le> xp_rsqb st then xp_fail st
          else add_text c (st\<lparr>xp_rsqb := 0\<rparr>)
      | Lt \<Rightarrow>
          if c = CHR ''/'' then st\<lparr>xp_mode := ETag, xp_acc := []\<rparr>
          else if name_start c then st\<lparr>xp_mode := STag, xp_acc := [c]\<rparr>
          else if c = CHR ''?'' \<or> c = CHR ''!'' \<or> c = CHR '':'' then xp_unsup st
          else xp_fail st
      | STag \<Rightarrow>
          if name_char c then st\<lparr>xp_acc := xp_acc st @ [c]\<rparr>
          else if is_ws c then st\<lparr>xp_mode := Attrs, xp_tag := xp_acc st, xp_attrs := []\<rparr>
          else if c = CHR ''>'' then open_element (xp_acc st) [] st
          else if c = CHR ''/'' \<or> c = CHR '':'' then xp_unsup st
          else xp_fail st
      | Attrs \<Rightarrow>
          if is_ws c then st
          else if c = CHR ''>'' then open_element (xp_tag st) (xp_attrs st) st
          else if name_start c then st\<lparr>xp_mode := AName, xp_acc := [c]\<rparr>
          else if c = CHR ''/'' \<or> c = CHR '':'' then xp_unsup st
          else xp_fail st
      | AName \<Rightarrow>
          if name_char c then st\<lparr>xp_acc := xp_acc st @ [c]\<rparr>
          else if c = CHR ''='' then
            (if xp_acc st = ''xmlns'' then xp_unsup st
             else st\<lparr>xp_mode := AEq, xp_aname := xp_acc st\<rparr>)
          else if is_ws c \<or> c = CHR '':'' then xp_unsup st
          else xp_fail st
      | AEq \<Rightarrow>
          if c = dq then st\<lparr>xp_mode := AVal, xp_acc := []\<rparr>
          else if c = CHR 0x27 \<or> is_ws c then xp_unsup st
          else xp_fail st
      | AVal \<Rightarrow>
          if c = dq then
            (if xp_aname st \<in> fst ` set (xp_attrs st) then xp_fail st
             else st\<lparr>xp_mode := AEnd, xp_attrs := xp_attrs st @ [(xp_aname st, xp_acc st)]\<rparr>)
          else if c = CHR ''<'' then xp_fail st
          else if c = CHR ''&'' then xp_unsup st
          else if c = CHR 0x09 \<or> c = CHR 0x0A then st\<lparr>xp_acc := xp_acc st @ '' ''\<rparr>
          else st\<lparr>xp_acc := xp_acc st @ [c]\<rparr>
      | AEnd \<Rightarrow>
          if is_ws c then st\<lparr>xp_mode := Attrs\<rparr>
          else if c = CHR ''>'' then open_element (xp_tag st) (xp_attrs st) st
          else if c = CHR ''/'' then xp_unsup st
          else xp_fail st
      | ETag \<Rightarrow>
          if name_char c then st\<lparr>xp_acc := xp_acc st @ [c]\<rparr>
          else if c = CHR ''>'' then close_element (xp_acc st) st
          else if is_ws c \<or> c = CHR '':'' then xp_unsup st
          else xp_fail st
      | Ent \<Rightarrow>
          if c = CHR '';'' then
            (case entity_char (xp_acc st) of
               None \<Rightarrow> xp_unsup st
             | Some x \<Rightarrow> add_text x (to_content st))
          else if name_char c then st\<lparr>xp_acc := xp_acc st @ [c]\<rparr>
          else if c = CHR ''#'' \<or> c = CHR '':'' then xp_unsup st
          else xp_fail st)"

definition xml_start :: xml_parser where
  "xml_start =
     \<lparr>xp_status = Running, xp_mode = Begin, xp_stack = [], xp_out = [], xp_acc = [], xp_tag = [],
      xp_attrs = [], xp_aname = [], xp_root_done = False, xp_rsqb = 0, xp_utf = []\<rparr>"

definition xml_run :: "xml_parser \<Rightarrow> string \<Rightarrow> xml_parser" where
  "xml_run st s = foldl xml_step st s"

text \<open>
  \<^verbatim>\<open>iterparse\<close> reads the stream in pieces of \<^verbatim>\<open>16 * 1024\<close> characters and hands out the
  elements found in a piece before it raises the error found in it. A document of
  several pieces may lose elements found before an error, when the parser has put off
  a long token until the stream is closed; this is not modelled.
\<close>

definition chunk_size :: nat where
  "chunk_size = 16 * 1024"

text \<open>
  The outcome: the reported elements of a well-formed document, or the elements reported
  before the error, or nothing when the document is outside what the machine covers.
\<close>

datatype iterparse_result = Events "xml_event list" | ParseError "xml_event list" | NotModelled

definition iterparse :: "string \<Rightarrow> iterparse_result" where
  "iterparse s =
     (if \<not> utf8_valid s then NotModelled
      else
        (let st = xml_run xml_start s in
         if xp_status st = Unsupported then NotModelled
         else if xp_status st = Running \<and> xp_mode st = Content \<and> xp_stack st = [] \<and> xp_root_done st
         then Events (xp_out st)
         else if chunk_size < length s then NotModelled
         else ParseError (xp_out st)))"

text \<open>The marker that \<^verbatim>\<open>_parse_xml_content\<close> appends.\<close>

definition custom_tag :: string where
  "custom_tag = ''[custom_xml]''"

text \<open>
  The body of the loop of \<^verbatim>\<open>_parse_xml_content\<close> for one reported element: only a \<^verbatim>\<open>d\<close>
  element with a \<^verbatim>\<open>p\<close> attribute and a text yields a comment; with at least 4 parts the
  attribute becomes the first four parts and the marker, otherwise it is kept.
\<close>

definition comment_of_event :: "xml_event \<Rightarrow> comment list" where
  "comment_of_event ev =
     (case ev of (tag, attrs, text) \<Rightarrow>
        if tag = ''d'' then
          (case (map_of attrs ''p'', text) of
             (Some p_attr, Some t) \<Rightarrow>
               (let p_parts = split_on (CHR '','') p_attr in
                if 4 \<le> length p_parts then
                  [\<lparr>cm_p = Some (p_parts ! 0 @ '','' @ p_parts ! 1 @ '','' @ p_parts ! 2 @ '','' @
                                 p_parts ! 3 @ '','' @ custom_tag),
                    cm_m = Some t\<rparr>]
                else [\<lparr>cm_p = Some p_attr, cm_m = Some t\<rparr>])
           | _ \<Rightarrow> [])
        else [])"

text \<open>
  \<^verbatim>\<open>_parse_xml_content\<close>: the comments of the reported elements; a parse error is caught and
  the comments found before it are returned. \<open>None\<close>: the document is not modelled.
\<close>

definition parse_xml_content :: "string \<Rightarrow> comment list option" where
  "parse_xml_content xml_content =
     (case iterparse xml_content of
        Events evs \<Rightarrow> Some (concat (map comment_of_event evs))
      | ParseError evs \<Rightarrow> Some (concat (map comment_of_event evs))
      | NotModelled \<Rightarrow> None)"

text \<open>
  While the comment lines are read, the root element is open, has had children, and its
  text is the newline and indentation before its first child.
\<close>

definition i_elem :: open_elem where
  "i_elem = \<lparr>oe_tag = ''i'', oe_attrs = [], oe_text = Some [CHR 0x0A, CHR '' '', CHR '' ''],
              oe_text_done = True\<rparr>"

definition body :: "xml_event list \<Rightarrow> xml_parser" where
  "body evs =
     \<lparr>xp_status = Running, xp_mode = Content, xp_stack = [i_elem], xp_out = evs, xp_acc = [],
      xp_tag = [], xp_attrs = [], xp_aname = [], xp_root_done = False, xp_rsqb = 0,
      xp_utf = []\<rparr>"

text \<open>
  Characters that an attribute value carries unchanged, and characters that text
  carries unchanged once it is escaped: in an attribute no control character, double
  quote, \<^verbatim>\<open><\<close> or \<^verbatim>\<open>&\<close>; in text no control character other than tab and newline; in both
  neither U+FFFE nor U+FFFF.
\<close>

definition attr_char :: "string \<Rightarrow> bool" where
  "attr_char bs =
     (case bs of
        [c] \<Rightarrow> (0x20 :: nat) \<le> of_char c \<and> c \<noteq> dq \<and> c \<noteq> CHR ''<'' \<and> c \<noteq> CHR ''&''
      | _ \<Rightarrow> \<not> nonchar bs)"

definition text_char :: "string \<Rightarrow> bool" where
  "text_char bs =
     (case bs of
        [c] \<Rightarrow> valid_char c \<and> c \<noteq> CHR 0x0D
      | _ \<Rightarrow> \<not> nonchar bs)"

definition attr_plain :: "string \<Rightarrow> bool" where
  "attr_plain s = utf8_chars attr_char s"

definition text_plain :: "string \<Rightarrow> bool" where
  "text_plain s = utf8_chars text_char s"

text \<open>Text after more characters; no characters leave no text as no text.\<close>

definition app_text :: "string option \<Rightarrow> string \<Rightarrow> string option" where
  "app_text t s = (if s = [] then t else Some ((case t of None \<Rightarrow> [] | Some x \<Rightarrow> x) @ s))"

text \<open>The machine reads content and is in the middle of nothing.\<close>

definition content_ready :: "xml_parser \<Rightarrow> bool" where
  "content_ready st =
     (xp_status st = Running \<and> xp_mode st = Content \<and> xp_acc st = [] \<and> xp_tag st = [] \<and>
      xp_attrs st = [] \<and> xp_aname st = [] \<and> xp_utf st = [])"

text \<open>\<^verbatim>\<open>comment.get('m', '')\<close> and \<^verbatim>\<open>comment.get('p', '0,1,25,16777215')\<close>.\<close>

definition comment_text :: "comment \<Rightarrow> string" where
  "comment_text c = (case cm_m c of None \<Rightarrow> [] | Some m \<Rightarrow> m)"

definition given_p :: "comment \<Rightarrow> string" where
  "given_p c = (case cm_p c of None \<Rightarrow> default_p | Some p \<Rightarrow> p)"

text \<open>The element that the line of a comment is reported as.\<close>

definition d_event :: "comment \<Rightarrow> xml_event" where
  "d_event c = (''d'', [(''p'', emitted_p c)], app_text None (comment_text c))"

text \<open>The elements of the header lines and the root element, as reported.\<close>

definition header_events :: "nat \<Rightarrow> xml_event list" where
  "header_events n =
     [(''chatserver'', [], Some ''danmu''), (''chatid'', [], Some ''0''),
      (''mission'', [], Some ''0''), (''maxlimit'', [], Some (py_str (int n))),
      (''source'', [], Some ''kuyun'')]"

text \<open>The first line of the document.\<close>

definition decl_line :: string where
  "decl_line = ''<?'' @ decl_rest"

definition i_event :: xml_event where
  "i_event = (''i'', [], Some [CHR 0x0A, CHR '' '', CHR '' ''])"

text \<open>
  The tuple of a comment: the first four parts of its packed attribute (time, mode, size,
  color) and its text.
\<close>

definition core_fields :: "string \<Rightarrow> string list" where
  "core_fields p = take 4 (split_on (CHR '','') p)"

definition comment_tuple :: "comment \<Rightarrow> string list \<times> string" where
  "comment_tuple c = (core_fields (given_p c), comment_text c)"

text \<open>
  The four fields after generation: with exactly 3 core parts, time, mode, the default
  size 25 and the third part; otherwise the first four parts as they are.
\<close>

definition expected_fields :: "comment \<Rightarrow> string list" where
  "expected_fields c =
     (let parts = split_on (CHR '','') (given_p c) in
      if core_parts_count parts = 3 then [parts ! 0, parts ! 1, ''25'', parts ! 2]
      else take 4 parts)"

text \<open>
  Four comments: one complete, one with 3 core parts and text to escape, one without text,
  and one whose text is a character of three bytes followed by \<^verbatim>\<open>]]>\<close>.
\<close>

definition demo_comments :: "comment list" where
  "demo_comments =
     [demo_comment, \<lparr>cm_p = Some ''3,1,255'', cm_m = Some ''a<b''\<rparr>,
      \<lparr>cm_p = Some ''4,1,25,255'', cm_m = Some []\<rparr>,
      \<lparr>cm_p = Some ''5,1,25,255'',
        cm_m = Some [CHR 0xE5, CHR 0xBC, CHR 0xB9, CHR '']'', CHR '']'', CHR ''>'']\<rparr>]"

section \<open>Facts about decimal strings\<close>

lemma small_int_cases:
  "0 \<le> d \<Longrightarrow> d < 10 \<Longrightarrow> d \<in> {0, 1, 2, 3, 4, 5, 6, 7, 8, 9 :: int}"
  by (simp only: insert_iff empty_iff) arith

lemma digit_char_is_digit: "0 \<le> d \<Longrightarrow> d < 10 \<Longrightarrow> is_digit (digit_char d)"
  using small_int_cases [of d] by (auto simp: digit_char_def is_digit_def)

lemma digit_val_digit_char: "0 \<le> d \<Longrightarrow> d < 10 \<Longrightarrow> digit_val (digit_char d) = d"
  using small_int_cases [of d] by (auto simp: digit_char_def digit_val_def)

lemma int_of_digits_Nil [simp]: "int_of_digits [] = 0"
  by (simp add: int_of_digits_def)

lemma int_of_digits_snoc [simp]:
  "int_of_digits (s @ [c]) = 10 * int_of_digits s + digit_val c"
  by (simp add: int_of_digits_def)

lemma int_of_digits_append:
  "int_of_digits (xs @ ys) = int_of_digits xs * 10 ^ length ys + int_of_digits ys"
proof (induction ys rule: rev_induct)
  case Nil
  then show ?case by simp
next
  case (snoc y ys)
  have "int_of_digits (xs @ ys @ [y]) = 10 * int_of_digits (xs @ ys) + digit_val y"
    using int_of_digits_snoc [of "xs @ ys" y] by simp
  then show ?case
    using snoc by (simp add: algebra_simps)
qed

lemma int_of_digits_str_nat: "0 \<le> n \<Longrightarrow> int_of_digits (str_nat n) = n"
proof (induction n rule: str_nat.induct)
  case (1 n)
  show ?case
  proof (cases "n < 10")
    case True
    then show ?thesis
      using int_of_digits_snoc [of "[]" "digit_char n"] 1(2)
      by (simp add: str_nat.simps [of n] digit_val_digit_char)
  next
    case False
    then have "int_of_digits (str_nat (n div 10)) = n div 10"
      using 1 by simp
    then show ?thesis
      using False by (simp add: str_nat.simps [of n] digit_val_digit_char)
  qed
qed

lemma str_nat_digits: "0 \<le> n \<Longrightarrow> list_all is_digit (str_nat n)"
proof (induction n rule: str_nat.induct)
  case (1 n)
  show ?case
  proof (cases "n < 10")
    case True
    then show ?thesis
      using 1(2) by (simp add: str_nat.simps [of n] digit_char_is_digit)
  next
    case False
    then have "list_all is_digit (str_nat (n div 10))"
      using 1 by simp
    then show ?thesis
      using False by (simp add: str_nat.simps [of n] digit_char_is_digit)
  qed
qed

lemma str_nat_length: "n < 10 ^ w \<Longrightarrow> 0 < w \<Longrightarrow> length (str_nat n) \<le> w"
proof (induction n arbitrary: w rule: str_nat.induct)
  case (1 n)
  show ?case
  proof (cases "n < 10")
    case True
    then show ?thesis
      using 1(3) by (simp add: str_nat.simps [of n])
  next
    case False
    then obtain v where w: "w = Suc v"
      using 1(3) by (cases w) auto
    have "0 < v"
    proof (rule ccontr)
      assume "\<not> 0 < v"
      then have "w = 1" using w by simp
      then show False using 1(2) False by simp
    qed
    moreover have "n div 10 < 10 ^ v"
    proof -
      have "n < 10 ^ v * 10" using 1(2) w by simp
      then show ?thesis by linarith
    qed
    ultimately have "length (str_nat (n div 10)) \<le> v"
      using 1(1) [of v] False by blast
    then show ?thesis
      using False w by (simp add: str_nat.simps [of n])
  qed
qed

lemma int_of_digits_replicate_zero: "int_of_digits (replicate k (CHR ''0'')) = 0"
proof (induction k)
  case 0
  then show ?case by simp
next
  case (Suc k)
  have "int_of_digits (replicate k (CHR ''0'') @ [CHR ''0'']) = 0"
    unfolding int_of_digits_snoc using Suc by (simp add: digit_val_def)
  then show ?case
    by (simp only: replicate_append_same replicate_Suc)
qed

lemma int_of_digits_zfill: "int_of_digits (zfill w s) = int_of_digits s"
  by (simp add: zfill_def int_of_digits_append int_of_digits_replicate_zero)

lemma is_digit_zero: "is_digit (CHR ''0'')"
  by (simp add: is_digit_def)

lemma zfill_digits: "list_all is_digit s \<Longrightarrow> list_all is_digit (zfill w s)"
  by (auto simp: zfill_def list_all_iff is_digit_zero)

lemma zfill_length: "length s \<le> w \<Longrightarrow> length (zfill w s) = w"
  by (simp add: zfill_def)

text \<open>A non-negative field below \<open>10 ^ w\<close> fills exactly \<open>w\<close> digits and keeps its value.\<close>

lemma fmt_0d_digits: "0 \<le> i \<Longrightarrow> list_all is_digit (fmt_0d w i)"
  by (simp add: fmt_0d_def zfill_digits str_nat_digits)

lemma fmt_0d_value: "0 \<le> i \<Longrightarrow> int_of_digits (fmt_0d w i) = i"
  by (simp add: fmt_0d_def int_of_digits_zfill int_of_digits_str_nat)

lemma fmt_0d_length: "0 \<le> i \<Longrightarrow> i < 10 ^ w \<Longrightarrow> 0 < w \<Longrightarrow> length (fmt_0d w i) = w"
proof -
  assume a: "0 \<le> i" "i < 10 ^ w" "0 < w"
  have "length (str_nat i) \<le> w" using a(2,3) by (rule str_nat_length)
  then show ?thesis using a(1) by (simp add: fmt_0d_def zfill_length)
qed

lemma fmt_0d_negative: "i < 0 \<Longrightarrow> \<not> list_all is_digit (fmt_0d w i)"
  by (simp add: fmt_0d_def is_digit_def)

text \<open>
  On non-negative fields the identity is defined, and on the documented domain it is the
  positional value \<open>25\<cdot>10\<^sup>1\<^sup>2 + a\<cdot>10\<^sup>6 + s\<cdot>10\<^sup>4 + i\<close>.
\<close>

lemma new_id_string_digits:
  "0 \<le> a \<Longrightarrow> 0 \<le> so \<Longrightarrow> 0 \<le> i \<Longrightarrow> list_all is_digit (new_id_string a so i)"
  by (simp add: new_id_string_def fmt_0d_digits is_digit_def)

lemma episode_new_id_defined:
  "0 \<le> a \<Longrightarrow> 0 \<le> so \<Longrightarrow> 0 \<le> i \<Longrightarrow>
   episode_new_id a so i = Some (int_of_digits (new_id_string a so i))"
  by (simp add: episode_new_id_def py_int_def new_id_string_digits) (simp add: new_id_string_def)

lemma int_of_digits_25: "int_of_digits ''25'' = 25"
  by (simp add: int_of_digits_def digit_val_def)

lemma new_id_string_value:
  assumes "0 \<le> a" "a < 10 ^ 6" "0 \<le> so" "so < 10 ^ 2" "0 \<le> i" "i < 10 ^ 4"
  shows "int_of_digits (new_id_string a so i) = 25 * 10 ^ 12 + a * 10 ^ 6 + so * 10 ^ 4 + i"
proof -
  have la: "length (fmt_0d 6 a) = 6" using assms by (simp add: fmt_0d_length)
  have ls: "length (fmt_0d 2 so) = 2" using assms by (simp add: fmt_0d_length)
  have li: "length (fmt_0d 4 i) = 4" using assms by (simp add: fmt_0d_length)
  have "int_of_digits (new_id_string a so i) =
        ((25 * 10 ^ 6 + a) * 10 ^ 2 + so) * 10 ^ 4 + i"
    unfolding new_id_string_def
    using int_of_digits_append [of "''25'' @ fmt_0d 6 a @ fmt_0d 2 so" "fmt_0d 4 i"]
      int_of_digits_append [of "''25'' @ fmt_0d 6 a" "fmt_0d 2 so"]
      int_of_digits_append [of "''25''" "fmt_0d 6 a"]
      la ls li int_of_digits_25 assms
    by (simp add: fmt_0d_value del: append.simps)
  then show ?thesis by simp
qed

lemma episode_new_id_value:
  assumes "0 \<le> a" "a < 10 ^ 6" "0 \<le> so" "so < 10 ^ 2" "0 \<le> i" "i < 10 ^ 4"
  shows "episode_new_id a so i = Some (25 * 10 ^ 12 + a * 10 ^ 6 + so * 10 ^ 4 + i)"
  using episode_new_id_defined [of a so i] new_id_string_value [OF assms] assms by simp

section \<open>Injectivity of the identity encoding\<close>

text \<open>
  Claim C10. On the documented domain (work id below 1000000, source order below 100,
  episode index below 10000, none negative) two triples have the same identity exactly
  when they are the same triple: distinct triples get distinct identities.
\<close>

theorem episode_new_id_injective:
  assumes "0 \<le> a" "a < 1000000" "0 \<le> so" "so < 100" "0 \<le> i" "i < 10000"
    and "0 \<le> a'" "a' < 1000000" "0 \<le> so'" "so' < 100" "0 \<le> i'" "i' < 10000"
  shows "(episode_new_id a so i = episode_new_id a' so' i') = (a = a' \<and> so = so' \<and> i = i')"
proof -
  have v: "episode_new_id a so i = Some (25 * 10 ^ 12 + a * 10 ^ 6 + so * 10 ^ 4 + i)"
    using assms by (intro episode_new_id_value) simp_all
  have v': "episode_new_id a' so' i' = Some (25 * 10 ^ 12 + a' * 10 ^ 6 + so' * 10 ^ 4 + i')"
    using assms by (intro episode_new_id_value) simp_all
  show ?thesis
  proof
    assume "episode_new_id a so i = episode_new_id a' so' i'"
    then have "a * 1000000 + so * 10000 + i = a' * 1000000 + so' * 10000 + i'"
      using v v' by simp
    then have e: "a * 1000000 + so * 10000 + i = a' * 1000000 + so' * 10000 + i'"
      by simp
    have x: "a * 100 + so = a' * 100 + so'"
    proof (rule ccontr)
      assume "a * 100 + so \<noteq> a' * 100 + so'"
      then consider "a * 100 + so + 1 \<le> a' * 100 + so'" | "a' * 100 + so' + 1 \<le> a * 100 + so"
        by linarith
      then show False
        using e assms(5,6,11,12) by cases linarith+
    qed
    have y: "a = a'"
    proof (rule ccontr)
      assume "a \<noteq> a'"
      then consider "a + 1 \<le> a'" | "a' + 1 \<le> a"
        by linarith
      then show False
        using x assms(3,4,9,10) by cases linarith+
    qed
    show "a = a' \<and> so = so' \<and> i = i'"
      using e x y by linarith
  next
    assume "a = a' \<and> so = so' \<and> i = i'"
    then show "episode_new_id a so i = episode_new_id a' so' i'" by simp
  qed
qed

theorem episode_new_id_injective_witness:
  "episode_new_id 7 2 13 \<noteq> episode_new_id 7 3 3 \<and> episode_new_id 7 2 13 \<noteq> episode_new_id 72 1 3"
  using episode_new_id_injective [of 7 2 13 7 3 3] episode_new_id_injective [of 7 2 13 72 1 3]
  by simp


section \<open>The reorder job: what a run leaves behind\<close>

lemma quiet_step_refl: "quiet_step st st"
  by (simp add: quiet_step_def)

lemma quiet_step_trans: "quiet_step a b \<Longrightarrow> quiet_step b c \<Longrightarrow> quiet_step a c"
  by (auto simp: quiet_step_def)

lemma call_result:
  "call flt s st = (r, st') \<Longrightarrow>
     r = flt s \<and>
     st' = (if flt s = None then st\<lparr>calls := calls st @ [s]\<rparr> else st\<lparr>raised := raised st @ [s]\<rparr>)"
  by (auto simp: call_def split: option.splits)

lemma call_quiet: "call flt s st = (r, st') \<Longrightarrow> s \<noteq> CommitMigration \<Longrightarrow> quiet_step st st'"
  by (auto simp: call_def quiet_step_def split: option.splits)

lemma call_fields:
  "call flt s st = (r, st') \<Longrightarrow>
     working st' = working st \<and> files st' = files st \<and> fk_checks st' = fk_checks st"
  by (auto simp: call_def split: option.splits)

lemma lookup_source_quiet: "lookup_source flt sid st = (r, st') \<Longrightarrow> quiet_step st st'"
  unfolding lookup_source_def
  by (auto split: option.splits prod.splits if_splits dest!: call_quiet intro: quiet_step_trans quiet_step_refl)

lemma lookup_source_fields:
  "lookup_source flt sid st = (r, st') \<Longrightarrow>
     working st' = working st \<and> files st' = files st \<and> fk_checks st' = fk_checks st"
  unfolding lookup_source_def
  by (auto split: option.splits prod.splits if_splits dest!: call_fields)

lemma delete_all_quiet: "delete_all flt j dels st = (r, st') \<Longrightarrow> quiet_step st st'"
proof (induction dels arbitrary: j st)
  case Nil
  then show ?case by (simp add: quiet_step_refl)
next
  case (Cons e dels)
  show ?case
  proof (cases "flt (Delete j)")
    case None
    let ?st1 = "st\<lparr>calls := calls st @ [Delete j]\<rparr>"
    let ?st2 = "?st1\<lparr>working := removeAll e (working ?st1)\<rparr>"
    have "delete_all flt (Suc j) dels ?st2 = (r, st')"
      using Cons.prems None by (simp add: call_def)
    then have "quiet_step ?st2 st'" by (rule Cons.IH)
    moreover have "quiet_step st ?st2" by (simp add: quiet_step_def)
    ultimately show ?thesis by (rule quiet_step_trans [rotated])
  next
    case (Some f)
    then show ?thesis using Cons.prems by (auto simp: call_def quiet_step_def)
  qed
qed

lemma delete_all_fields:
  "delete_all flt j dels st = (r, st') \<Longrightarrow> files st' = files st \<and> fk_checks st' = fk_checks st"
proof (induction dels arbitrary: j st)
  case Nil
  then show ?case by simp
next
  case (Cons e dels)
  show ?case
  proof (cases "flt (Delete j)")
    case None
    let ?st2 = "st\<lparr>calls := calls st @ [Delete j], working := removeAll e (working st)\<rparr>"
    have "delete_all flt (Suc j) dels ?st2 = (r, st')"
      using Cons.prems None by (simp add: call_def)
    from Cons.IH [OF this] show ?thesis by simp
  next
    case (Some f)
    then show ?thesis using Cons.prems by (auto simp: call_def)
  qed
qed

lemma commit_plain_quiet:
  "commit flt s [] st = (r, st') \<Longrightarrow> s \<noteq> CommitMigration \<Longrightarrow> working st = committed st \<Longrightarrow>
     quiet_step st st' \<and> working st' = committed st'"
  by (auto simp: commit_def pk_conflict_def quiet_step_def split: option.splits)

lemma commit_fields:
  "commit flt s adds st = (r, st') \<Longrightarrow> files st' = files st \<and> fk_checks st' = fk_checks st \<and> sources st' = sources st"
  by (auto simp: commit_def split: option.splits if_splits)

lemma set_fk_quiet:
  "set_fk flt s d b st = (r, st') \<Longrightarrow> s \<noteq> CommitMigration \<Longrightarrow>
     quiet_step st st' \<and> working st' = working st \<and> files st' = files st"
  by (auto simp: set_fk_def quiet_step_def split: option.splits if_splits)

lemma rollback_quiet:
  "rollback flt st = (r, st') \<Longrightarrow> quiet_step st st' \<and> working st' = committed st \<and> files st' = files st
     \<and> fk_checks st' = fk_checks st"
  by (auto simp: rollback_def quiet_step_def split: option.splits)

text \<open>The staged changes reach the committed rows only through the final commit.\<close>

lemma apply_plan_quiet:
  assumes "apply_plan flt dels adds st = (e, st')"
  shows "quiet_step st st' \<or> CommitMigration \<in> set (calls st')"
proof -
  obtain r1 st1 where c1: "call flt ProgressMigrate st = (r1, st1)" by force
  have q1: "quiet_step st st1" using c1 by (rule call_quiet) simp
  show ?thesis
  proof (cases r1)
    case (Some f)
    then show ?thesis using assms c1 q1 by (simp add: apply_plan_def)
  next
    case None
    obtain r2 st2 where c2: "delete_all flt 0 dels st1 = (r2, st2)" by force
    have q2: "quiet_step st st2" using q1 delete_all_quiet [OF c2] by (rule quiet_step_trans)
    show ?thesis
    proof (cases r2)
      case (Some f)
      then show ?thesis using assms c1 c2 None q2 by (simp add: apply_plan_def)
    next
      case n2: None
      obtain r3 st3 where c3: "call flt Flush st2 = (r3, st3)" by force
      have q3: "quiet_step st st3" using q2 call_quiet [OF c3] by (auto intro: quiet_step_trans)
      show ?thesis
      proof (cases r3)
        case (Some f)
        then show ?thesis using assms c1 c2 c3 None n2 q3 by (simp add: apply_plan_def)
      next
        case n3: None
        obtain r4 st4 where c4: "commit flt CommitMigration adds st3 = (r4, st4)" by force
        show ?thesis
        proof (cases r4)
          case (Some f)
          then have "quiet_step st3 st4"
            using c4 by (auto simp: commit_def quiet_step_def split: option.splits if_splits)
          then have "quiet_step st st4" using q3 by (rule quiet_step_trans [rotated])
          then show ?thesis using assms c1 c2 c3 c4 None n2 n3 Some by (simp add: apply_plan_def)
        next
          case n4: None
          then have "CommitMigration \<in> set (calls st4)"
            using c4 by (auto simp: commit_def split: option.splits if_splits)
          then show ?thesis using assms c1 c2 c3 c4 None n2 n3 n4 by (simp add: apply_plan_def)
        qed
      qed
    qed
  qed
qed

lemma reorder_txn_quiet:
  assumes "reorder_txn flt sid st = (e, st')"
  shows "quiet_step st st' \<or> CommitMigration \<in> set (calls st')"
proof -
  obtain r1 st1 where c1: "lookup_source flt sid st = (r1, st1)" by force
  have q1: "quiet_step st st1" using c1 by (rule lookup_source_quiet)
  show ?thesis
  proof (cases r1)
    case (Inl x)
    then show ?thesis using assms c1 q1 by (simp add: reorder_txn_def)
  next
    case (Inr t)
    obtain a so eps where t: "t = (a, so, eps)" by (cases t) auto
    obtain r2 st2 where c2: "call flt ProgressCompute st1 = (r2, st2)" by force
    have q2: "quiet_step st st2" using q1 call_quiet [OF c2] by (auto intro: quiet_step_trans)
    show ?thesis
    proof (cases r2)
      case (Some f)
      then show ?thesis using assms c1 c2 Inr t q2 by (simp add: reorder_txn_def)
    next
      case None
      obtain r3 fs where c3: "plan_loop flt a so 0 eps (files st2) = (r3, fs)" by force
      have q3: "quiet_step st (st2\<lparr>files := fs\<rparr>)" using q2 by (simp add: quiet_step_def)
      show ?thesis
      proof (cases r3)
        case (Inl f)
        then show ?thesis using assms c1 c2 c3 Inr t None q3 by (simp add: reorder_txn_def)
      next
        case r: (Inr p)
        obtain dels adds where p: "p = (dels, adds)" by (cases p) auto
        show ?thesis
        proof (cases "dels = []")
          case True
          then show ?thesis using assms c1 c2 c3 Inr t None r p q3 by (simp add: reorder_txn_def)
        next
          case False
          then have "apply_plan flt dels adds (st2\<lparr>files := fs\<rparr>) = (e, st')"
            using assms c1 c2 c3 Inr t None r p by (simp add: reorder_txn_def)
          from apply_plan_quiet [OF this] show ?thesis
            using q3 by (auto intro: quiet_step_trans)
        qed
      qed
    qed
  qed
qed

lemma quiet_step_calls: "quiet_step a b \<Longrightarrow> set (calls a) \<subseteq> set (calls b)"
  by (auto simp: quiet_step_def)

lemma quiet_step_committed: "quiet_step a b \<Longrightarrow> committed b = committed a"
  by (simp add: quiet_step_def)

lemma reorder_protected_rows:
  assumes clean: "working st = committed st"
    and run: "reorder_protected flt d sid st = (r, st')"
    and nocommit: "CommitMigration \<notin> set (calls st')"
  shows "committed st' = committed st \<and> working st' = committed st"
proof -
  obtain e st1 where c1: "reorder_txn flt sid st = (e, st1)" by force
  obtain r2 st2 where c2: "rollback flt st1 = (r2, st2)" by force
  obtain r3 st3 where c3: "set_fk flt RestoreFK d True st2 = (r3, st3)" by force
  obtain r4 st4 where c4: "commit flt CommitRestore [] st3 = (r4, st4)" by force
  have q2: "quiet_step st1 st2" and w2: "working st2 = committed st1"
    using rollback_quiet [OF c2] by simp_all
  have q3: "quiet_step st2 st3" and w3: "working st3 = working st2"
    using set_fk_quiet [OF c3] by simp_all
  have clean3: "working st3 = committed st3"
    using w3 w2 q2 q3 by (simp add: quiet_step_def)
  have q4: "quiet_step st3 st4" and w4: "working st4 = committed st4"
    using commit_plain_quiet [OF c4 _ clean3] by simp_all
  have st': "st' = st3 \<or> st' = st4"
    using run c1 c2 c3 c4 by (auto simp: reorder_protected_def split: option.splits)
  have q13: "quiet_step st1 st3" using q2 q3 by (rule quiet_step_trans)
  have q14: "quiet_step st1 st4" using q13 q4 by (rule quiet_step_trans)
  have q1': "quiet_step st1 st'" using st' q13 q14 by auto
  have w': "working st' = committed st'" using st' clean3 w4 by auto
  have "CommitMigration \<notin> set (calls st1)"
    using quiet_step_calls [OF q1'] nocommit by auto
  then have "quiet_step st st1" using reorder_txn_quiet [OF c1] by simp
  then have "quiet_step st st'" using q1' by (rule quiet_step_trans)
  then show ?thesis using w' by (simp add: quiet_step_def)
qed


section \<open>The reorder job: source order and new identities\<close>

lemma index_of_member: "index_of x xs = Some k \<Longrightarrow> x \<in> set xs"
  by (induction xs arbitrary: k) (auto split: if_splits)

lemma member_index_of: "x \<in> set xs \<Longrightarrow> \<exists>k. index_of x xs = Some k"
  by (induction xs) auto

lemma index_of_sorted:
  "sorted xs \<Longrightarrow> index_of x xs = Some k \<Longrightarrow> k = length (filter (\<lambda>y. y < x) xs)"
proof (induction xs arbitrary: k)
  case Nil
  then show ?case by simp
next
  case (Cons y ys)
  show ?case
  proof (cases "x = y")
    case True
    then have "filter (\<lambda>z. z < x) (y # ys) = []"
      using Cons.prems(1) by (auto simp: filter_empty_conv)
    then show ?thesis using Cons.prems(2) True by simp
  next
    case False
    then obtain k' where k': "index_of x ys = Some k'" "k = Suc k'"
      using Cons.prems(2) by auto
    have "x \<in> set ys" using k'(1) by (rule index_of_member)
    then have "y < x" using Cons.prems(1) False by auto
    moreover have "k' = length (filter (\<lambda>y. y < x) ys)"
      using Cons.IH [OF _ k'(1)] Cons.prems(1) by simp
    ultimately show ?thesis using k'(2) by simp
  qed
qed

lemma length_filter_sort: "length (filter P (sort xs)) = length (filter P xs)"
  by (simp add: filter_sort)

lemma source_order_rank:
  "index_of sid (all_source_ids st a) = Some k \<Longrightarrow> int k + 1 = source_rank st a sid"
  using index_of_sorted [of "all_source_ids st a" sid k]
  by (simp add: all_source_ids_def source_rank_def length_filter_sort)

lemma source_found_in_ids:
  assumes "get_anime_source_info st sid = Some info"
  shows "sid \<in> set (all_source_ids st (animeId info))"
proof -
  have "info \<in> set (sources st) \<and> src_id info = sid"
    using assms by (auto simp: get_anime_source_info_def find_Some_iff)
  then show ?thesis by (auto simp: all_source_ids_def)
qed

lemma lookup_source_result:
  assumes "lookup_source flt sid st = (Inr (a, so, eps), st1)"
  shows "(\<exists>info. get_anime_source_info st sid = Some info \<and> a = animeId info) \<and>
         so = source_rank st a sid \<and> eps = select_episodes st sid \<and> eps \<noteq> []"
  using assms unfolding lookup_source_def
  by (auto simp: call_def source_order_rank [symmetric] select_episodes_def get_anime_source_info_def all_source_ids_def
      split: option.splits if_splits)

lemma plan_loop_lengths:
  "plan_loop flt a so i0 eps fs = (Inr (dels, adds), fs') \<Longrightarrow> length adds = length dels"
proof (induction eps arbitrary: i0 fs dels adds)
  case Nil
  then show ?case by simp
next
  case (Cons e es)
  then show ?case
    by (auto split: option.splits if_splits prod.splits sum.splits)
qed

lemma plan_loop_positions:
  assumes "plan_loop flt a so i0 eps fs = (Inr (dels, adds), fs')" and "i < length eps"
  shows "\<exists>nid. episode_new_id a so (int (i0 + i) + 1) = Some nid \<and>
           ((ep_id (eps ! i) = nid \<and> episodeIndex (eps ! i) = int (i0 + i) + 1) \<or>
            (\<exists>j < length adds. j < length dels \<and> dels ! j = eps ! i \<and>
               renumbered (eps ! i) nid (int (i0 + i) + 1) (adds ! j)))"
  using assms
proof (induction eps arbitrary: i0 fs dels adds i)
  case Nil
  then show ?case by simp
next
  case (Cons e es)
  obtain nid0 where n0: "episode_new_id a so (int i0 + 1) = Some nid0"
    using Cons.prems(1) by (cases "episode_new_id a so (int i0 + 1)") auto
  show ?case
  proof (cases "ep_id e = nid0 \<and> episodeIndex e = int i0 + 1")
    case True
    then have rest: "plan_loop flt a so (Suc i0) es fs = (Inr (dels, adds), fs')"
      using Cons.prems(1) n0 by simp
    show ?thesis
    proof (cases i)
      case 0
      then show ?thesis using True n0 by simp
    next
      case (Suc i')
      then have "i' < length es" using Cons.prems(2) by simp
      from Cons.IH [OF rest this] show ?thesis using Suc by simp
    qed
  next
    case False
    obtain new_path fs1 where rl: "relocate flt i0 a nid0 e fs = (Inr new_path, fs1)"
      using Cons.prems(1) n0 False
      by (auto split: prod.splits sum.splits)
    obtain dels' adds' where rest: "plan_loop flt a so (Suc i0) es fs1 = (Inr (dels', adds'), fs')"
      and d: "dels = e # dels'"
      and ad: "adds = e\<lparr>ep_id := nid0, episodeIndex := int i0 + 1, danmakuFilePath := new_path\<rparr> # adds'"
      using Cons.prems(1) n0 False rl
      by (auto split: prod.splits sum.splits)
    show ?thesis
    proof (cases i)
      case 0
      have "renumbered e nid0 (int i0 + 1) (adds ! 0)"
        using ad by (simp add: renumbered_def)
      then show ?thesis using 0 n0 d ad by auto
    next
      case (Suc i')
      then have "i' < length es" using Cons.prems(2) by simp
      from Cons.IH [OF rest this]
      obtain nid where n: "episode_new_id a so (int (Suc i0 + i') + 1) = Some nid"
        and c: "(ep_id (es ! i') = nid \<and> episodeIndex (es ! i') = int (Suc i0 + i') + 1) \<or>
                (\<exists>j < length adds'. j < length dels' \<and> dels' ! j = es ! i' \<and>
                   renumbered (es ! i') nid (int (Suc i0 + i') + 1) (adds' ! j))"
        by blast
      from c show ?thesis
      proof
        assume "ep_id (es ! i') = nid \<and> episodeIndex (es ! i') = int (Suc i0 + i') + 1"
        then show ?thesis using n Suc by simp
      next
        assume "\<exists>j < length adds'. j < length dels' \<and> dels' ! j = es ! i' \<and>
                   renumbered (es ! i') nid (int (Suc i0 + i') + 1) (adds' ! j)"
        then obtain j where j: "j < length adds'" "j < length dels'" "dels' ! j = es ! i'"
          "renumbered (es ! i') nid (int (Suc i0 + i') + 1) (adds' ! j)" by blast
        have "Suc j < length adds \<and> Suc j < length dels \<and> dels ! Suc j = (e # es) ! i \<and>
              renumbered ((e # es) ! i) nid (int (i0 + i) + 1) (adds ! Suc j)"
          using j d ad Suc by simp
        then show ?thesis using n Suc by auto
      qed
    qed
  qed
qed

lemma plan_loop_already_correct:
  "\<forall>i < length eps. episode_new_id a so (int (i0 + i) + 1) = Some (ep_id (eps ! i)) \<and>
        episodeIndex (eps ! i) = int (i0 + i) + 1 \<Longrightarrow>
   plan_loop flt a so i0 eps fs = (Inr ([], []), fs)"
proof (induction eps arbitrary: i0)
  case Nil
  then show ?case by simp
next
  case (Cons e es)
  have h: "episode_new_id a so (int i0 + 1) = Some (ep_id e) \<and> episodeIndex e = int i0 + 1"
    using Cons.prems by (auto dest: spec [of _ 0])
  have "\<forall>i < length es. episode_new_id a so (int (Suc i0 + i) + 1) = Some (ep_id (es ! i)) \<and>
        episodeIndex (es ! i) = int (Suc i0 + i) + 1"
  proof (intro allI impI)
    fix i assume "i < length es"
    then have "Suc i < length (e # es)" by simp
    from Cons.prems [rule_format, OF this] show
      "episode_new_id a so (int (Suc i0 + i) + 1) = Some (ep_id (es ! i)) \<and>
        episodeIndex (es ! i) = int (Suc i0 + i) + 1" by simp
  qed
  from Cons.IH [OF this] show ?case using h by simp
qed


lemma select_episodes_cong:
  "working st' = working st \<Longrightarrow> select_episodes st' sid = select_episodes st sid"
  by (simp add: select_episodes_def)

lemma reorder_noop_run:
  assumes nofault: "\<forall>s. flt s = None"
    and clean: "working st = committed st"
    and src: "get_anime_source_info st sid = Some info"
    and ok: "already_correct (animeId info) (source_rank st (animeId info) sid) (select_episodes st sid)"
  shows "\<exists>st'. reorder_episodes_task flt d sid st =
            (TaskSuccess (if select_episodes st sid = [] then NoEpisodes else AlreadyCorrect), st') \<and>
          committed st' = committed st \<and> working st' = working st \<and> files st' = files st \<and>
          sources st' = sources st"
proof -
  obtain k where k: "index_of sid (all_source_ids st (animeId info)) = Some k"
    using member_index_of [OF source_found_in_ids [OF src]] by blast
  have rank: "int k + 1 = source_rank st (animeId info) sid"
    using k by (rule source_order_rank)
  have plan: "plan_loop flt (animeId info) (int k + 1) 0 (select_episodes st sid) fs =
                (Inr ([], []), fs)" for fs
    using ok unfolding rank already_correct_def
    by (intro plan_loop_already_correct) simp
  have f: "flt s = None" for s using nofault by simp
  show ?thesis
    using k src plan clean
    by (cases d)
       (simp_all add: reorder_episodes_task_def reorder_protected_def reorder_txn_def
          lookup_source_def call_def commit_def set_fk_def rollback_def pk_conflict_def f
          get_anime_source_info_def all_source_ids_def select_episodes_def)
qed


section \<open>A run that succeeds, and the rows it leaves\<close>

text \<open>
  Without faults the staged deletions remove exactly the staged rows, and a run that ends
  with a success message leaves the rows of the plan: the old rows without the deleted
  ones, followed by the inserted ones.
\<close>

lemma filter_removeAll_dels:
  "filter (\<lambda>e. e \<notin> set dels) (removeAll d W) = filter (\<lambda>e. e \<notin> set (d # dels)) W"
  by (induction W) auto

lemma delete_all_nofault:
  "\<forall>s. flt s = None \<Longrightarrow>
     \<exists>cs. delete_all flt j dels st =
       (None, st\<lparr>working := filter (\<lambda>e. e \<notin> set dels) (working st), calls := calls st @ cs\<rparr>)"
proof (induction dels arbitrary: j st)
  case Nil
  then show ?case by (auto intro: exI [of _ "[]"])
next
  case (Cons d dels)
  have f: "flt (Delete j) = None" using Cons.prems by simp
  let ?st1 = "st\<lparr>calls := calls st @ [Delete j], working := removeAll d (working st)\<rparr>"
  have s: "delete_all flt j (d # dels) st = delete_all flt (Suc j) dels ?st1"
    using f by (simp add: call_def)
  from Cons.IH [OF Cons.prems, of "Suc j" ?st1]
  obtain cs where "delete_all flt (Suc j) dels ?st1 =
      (None, ?st1\<lparr>working := filter (\<lambda>e. e \<notin> set dels) (working ?st1),
                   calls := calls ?st1 @ cs\<rparr>)"
    by blast
  then have "delete_all flt j (d # dels) st =
      (None, st\<lparr>working := filter (\<lambda>e. e \<notin> set (d # dels)) (working st),
                 calls := calls st @ (Delete j # cs)\<rparr>)"
    using s by (simp add: filter_removeAll_dels del: set_simps)
  then show ?case by blast
qed

text \<open>The rows in position order after the migration.\<close>

lemma plan_loop_final:
  assumes "plan_loop flt a so i0 eps fs = (Inr (dels, adds), fs')" and "distinct eps"
  shows "\<exists>L. length L = length eps \<and> set L = (set eps - set dels) \<union> set adds \<and>
             set dels \<subseteq> set eps \<and>
             (\<forall>i < length eps.
                episode_new_id a so (int (i0 + i) + 1) = Some (ep_id (L ! i)) \<and>
                episodeIndex (L ! i) = int (i0 + i) + 1 \<and>
                sourceId (L ! i) = sourceId (eps ! i))"
  using assms
proof (induction eps arbitrary: i0 fs dels adds)
  case Nil
  then show ?case by simp
next
  case (Cons e es)
  obtain nid0 where n0: "episode_new_id a so (int i0 + 1) = Some nid0"
    using Cons.prems(1) by (cases "episode_new_id a so (int i0 + 1)") auto
  have de: "distinct es" "e \<notin> set es" using Cons.prems(2) by simp_all
  show ?case
  proof (cases "ep_id e = nid0 \<and> episodeIndex e = int i0 + 1")
    case True
    then have rest: "plan_loop flt a so (Suc i0) es fs = (Inr (dels, adds), fs')"
      using Cons.prems(1) n0 by simp
    from Cons.IH [OF rest de(1)]
    obtain L where L: "length L = length es" "set L = (set es - set dels) \<union> set adds"
      "set dels \<subseteq> set es"
      "\<forall>i < length es.
                episode_new_id a so (int (Suc i0 + i) + 1) = Some (ep_id (L ! i)) \<and>
                episodeIndex (L ! i) = int (Suc i0 + i) + 1 \<and>
                sourceId (L ! i) = sourceId (es ! i)"
      by blast
    have e_kept: "e \<notin> set dels" using L(3) de(2) by auto
    have "length (e # L) = length (e # es)" using L(1) by simp
    moreover have "set (e # L) = (set (e # es) - set dels) \<union> set adds"
      using L(2) e_kept by auto
    moreover have "set dels \<subseteq> set (e # es)" using L(3) by auto
    moreover have "\<forall>i < length (e # es).
                episode_new_id a so (int (i0 + i) + 1) = Some (ep_id ((e # L) ! i)) \<and>
                episodeIndex ((e # L) ! i) = int (i0 + i) + 1 \<and>
                sourceId ((e # L) ! i) = sourceId ((e # es) ! i)"
    proof (intro allI impI)
      fix i assume i: "i < length (e # es)"
      show "episode_new_id a so (int (i0 + i) + 1) = Some (ep_id ((e # L) ! i)) \<and>
                episodeIndex ((e # L) ! i) = int (i0 + i) + 1 \<and>
                sourceId ((e # L) ! i) = sourceId ((e # es) ! i)"
      proof (cases i)
        case 0
        then show ?thesis using True n0 by simp
      next
        case (Suc i')
        then have "i' < length es" using i by simp
        from L(4) [rule_format, OF this] show ?thesis using Suc by simp
      qed
    qed
    ultimately show ?thesis by blast
  next
    case False
    obtain new_path fs1 where rl: "relocate flt i0 a nid0 e fs = (Inr new_path, fs1)"
      using Cons.prems(1) n0 False
      by (auto split: prod.splits sum.splits)
    let ?n = "e\<lparr>ep_id := nid0, episodeIndex := int i0 + 1, danmakuFilePath := new_path\<rparr>"
    obtain dels' adds' where rest: "plan_loop flt a so (Suc i0) es fs1 = (Inr (dels', adds'), fs')"
      and d: "dels = e # dels'" and ad: "adds = ?n # adds'"
      using Cons.prems(1) n0 False rl
      by (auto split: prod.splits sum.splits)
    from Cons.IH [OF rest de(1)]
    obtain L where L: "length L = length es" "set L = (set es - set dels') \<union> set adds'"
      "set dels' \<subseteq> set es"
      "\<forall>i < length es.
                episode_new_id a so (int (Suc i0 + i) + 1) = Some (ep_id (L ! i)) \<and>
                episodeIndex (L ! i) = int (Suc i0 + i) + 1 \<and>
                sourceId (L ! i) = sourceId (es ! i)"
      by blast
    have "length (?n # L) = length (e # es)" using L(1) by simp
    moreover have "set (?n # L) = (set (e # es) - set dels) \<union> set adds"
      using L(2) d ad de(2) by auto
    moreover have "set dels \<subseteq> set (e # es)" using L(3) d by auto
    moreover have "\<forall>i < length (e # es).
                episode_new_id a so (int (i0 + i) + 1) = Some (ep_id ((?n # L) ! i)) \<and>
                episodeIndex ((?n # L) ! i) = int (i0 + i) + 1 \<and>
                sourceId ((?n # L) ! i) = sourceId ((e # es) ! i)"
    proof (intro allI impI)
      fix i assume i: "i < length (e # es)"
      show "episode_new_id a so (int (i0 + i) + 1) = Some (ep_id ((?n # L) ! i)) \<and>
                episodeIndex ((?n # L) ! i) = int (i0 + i) + 1 \<and>
                sourceId ((?n # L) ! i) = sourceId ((e # es) ! i)"
      proof (cases i)
        case 0
        then show ?thesis using n0 by simp
      next
        case (Suc i')
        then have "i' < length es" using i by simp
        from L(4) [rule_format, OF this] show ?thesis using Suc by simp
      qed
    qed
    ultimately show ?thesis by blast
  qed
qed

lemma canonical_after:
  assumes plan: "plan_loop flt a so 0 eps fs = (Inr (dels, adds), fs')"
    and eps: "eps = sort_key (\<lambda>e. (episodeIndex e, ep_id e)) (filter (\<lambda>e. sourceId e = sid) W)"
    and pk: "distinct (map ep_id W)"
    and nc: "\<not> pk_conflict (filter (\<lambda>e. e \<notin> set dels) W) adds"
  shows "already_correct a so
           (sort_key (\<lambda>e. (episodeIndex e, ep_id e))
              (filter (\<lambda>e. sourceId e = sid) (filter (\<lambda>e. e \<notin> set dels) W @ adds)))"
proof -
  let ?k = "\<lambda>e. (episodeIndex e, ep_id e)"
  let ?F = "filter (\<lambda>e. e \<notin> set dels) W"
  let ?R = "filter (\<lambda>e. sourceId e = sid) (?F @ adds)"
  let ?xs = "sort_key ?k ?R"
  have dW: "distinct W" using pk by (simp add: distinct_map)
  have deps: "distinct eps" using dW eps by simp
  have set_eps: "set eps = {e \<in> set W. sourceId e = sid}" using eps by auto
  from plan_loop_final [OF plan deps]
  obtain L where L: "length L = length eps" "set L = (set eps - set dels) \<union> set adds"
    "set dels \<subseteq> set eps"
    "\<forall>i < length eps.
        episode_new_id a so (int (0 + i) + 1) = Some (ep_id (L ! i)) \<and>
        episodeIndex (L ! i) = int (0 + i) + 1 \<and>
        sourceId (L ! i) = sourceId (eps ! i)"
    by blast
  have sidL: "sourceId x = sid" if "x \<in> set L" for x
  proof -
    from that have "\<exists>i < length L. L ! i = x" by (simp only: in_set_conv_nth)
    then obtain i where i: "i < length L" "x = L ! i" by blast
    then have "sourceId x = sourceId (eps ! i)" using L(1,4) by simp
    moreover have "eps ! i \<in> set eps" using i L(1) by simp
    ultimately show ?thesis using set_eps by simp
  qed
  have setR: "set ?R = set L"
  proof -
    have "set ?R = {e \<in> set W. e \<notin> set dels \<and> sourceId e = sid} \<union> {e \<in> set adds. sourceId e = sid}"
      by auto
    also have "\<dots> = (set eps - set dels) \<union> {e \<in> set adds. sourceId e = sid}"
      using set_eps by auto
    also have "{e \<in> set adds. sourceId e = sid} = set adds"
      using sidL L(2) by auto
    finally show ?thesis using L(2) by simp
  qed
  have "distinct (map ep_id ?F)" using pk by (rule distinct_map_filter)
  then have "distinct (map ep_id (?F @ adds))"
    using nc by (fastforce simp: pk_conflict_def image_iff)
  then have dR: "distinct (map ep_id ?R)" by (rule distinct_map_filter)
  then have injid: "inj_on ep_id (set ?R)" and distR: "distinct ?R"
    unfolding distinct_map by blast+
  have injk: "inj_on ?k (set ?R)"
    using injid by (auto simp: inj_on_def)
  have kxs: "sorted (map ?k ?xs)" "distinct (map ?k ?xs)" "set ?xs = set L"
    using injk distR setR by (simp_all add: distinct_map)
  have strict: "sorted_wrt (<) (map ?k L)"
  proof (subst sorted_wrt_iff_nth_less, intro allI impI)
    fix i j assume ij: "i < j" "j < length (map ?k L)"
    then have "episodeIndex (L ! i) = int i + 1" "episodeIndex (L ! j) = int j + 1"
      using L(1,4) by simp_all
    then show "map ?k L ! i < map ?k L ! j" using ij by (simp add: less_prod_def)
  qed
  then have kL: "sorted (map ?k L)" "distinct (map ?k L)"
    by (simp_all add: strict_sorted_iff)
  have "set (map ?k ?xs) = set (map ?k L)" using kxs(3) by simp
  then have "map ?k ?xs = map ?k L"
    using kxs(1,2) kL by (intro sorted_distinct_set_unique)
  moreover have "inj_on ?k (set ?xs \<union> set L)" using injk kxs(3) setR by simp
  ultimately have "?xs = L" by (simp add: inj_on_map_eq_map)
  then show ?thesis
    using L(1,4) by (simp add: already_correct_def)
qed

lemma apply_plan_nofault:
  assumes nofault: "\<forall>s. flt s = None"
    and run: "apply_plan flt dels adds st = (TaskSuccess m, st')"
  shows "\<not> pk_conflict (filter (\<lambda>e. e \<notin> set dels) (working st)) adds \<and>
         committed st' = filter (\<lambda>e. e \<notin> set dels) (working st) @ adds \<and>
         working st' = committed st' \<and> sources st' = sources st"
proof -
  have f: "flt s = None" for s using nofault by simp
  let ?st1 = "st\<lparr>calls := calls st @ [ProgressMigrate]\<rparr>"
  from delete_all_nofault [OF nofault, of 0 dels ?st1]
  obtain cs where d: "delete_all flt 0 dels ?st1 =
      (None, ?st1\<lparr>working := filter (\<lambda>e. e \<notin> set dels) (working ?st1), calls := calls ?st1 @ cs\<rparr>)"
    by blast
  show ?thesis
    using run d
    by (simp add: apply_plan_def call_def commit_def f split: if_splits) auto
qed

lemma lookup_source_nofault:
  assumes nofault: "\<forall>s. flt s = None"
    and run: "lookup_source flt sid st = (r, st')"
    and nf: "\<forall>f. r \<noteq> Inl (Fault f)"
  shows "\<exists>info k. get_anime_source_info st sid = Some info \<and>
           index_of sid (all_source_ids st (animeId info)) = Some k \<and>
           committed st' = committed st \<and> working st' = working st \<and>
           sources st' = sources st \<and> files st' = files st \<and>
           (if select_episodes st sid = [] then r = Inl (TaskSuccess NoEpisodes)
            else r = Inr (animeId info, int k + 1, select_episodes st sid))"
proof -
  have f: "flt s = None" for s using nofault by simp
  show ?thesis
    using run nf
    by (auto simp: lookup_source_def call_def f get_anime_source_info_def all_source_ids_def
        select_episodes_def split: option.splits if_splits)
qed

lemma reorder_txn_success:
  assumes nofault: "\<forall>s. flt s = None"
    and run: "reorder_txn flt sid st = (TaskSuccess m, st')"
  shows "\<exists>info k dels adds fs.
           get_anime_source_info st sid = Some info \<and>
           index_of sid (all_source_ids st (animeId info)) = Some k \<and>
           plan_loop flt (animeId info) (int k + 1) 0 (select_episodes st sid) (files st) =
             (Inr (dels, adds), fs) \<and>
           sources st' = sources st \<and>
           ((dels = [] \<and> committed st' = committed st \<and> working st' = working st) \<or>
            (\<not> pk_conflict (filter (\<lambda>e. e \<notin> set dels) (working st)) adds \<and>
             committed st' = filter (\<lambda>e. e \<notin> set dels) (working st) @ adds \<and>
             working st' = committed st'))"
proof -
  have f: "flt s = None" for s using nofault by simp
  obtain r st1 where l: "lookup_source flt sid st = (r, st1)" by (cases "lookup_source flt sid st")
  have nf: "\<forall>f. r \<noteq> Inl (Fault f)"
    using run l by (auto simp: reorder_txn_def)
  from lookup_source_nofault [OF nofault l nf]
  obtain info k where i: "get_anime_source_info st sid = Some info"
    "index_of sid (all_source_ids st (animeId info)) = Some k"
    "committed st1 = committed st" "working st1 = working st"
    "sources st1 = sources st" "files st1 = files st"
    "if select_episodes st sid = [] then r = Inl (TaskSuccess NoEpisodes)
     else r = Inr (animeId info, int k + 1, select_episodes st sid)"
    by blast
  show ?thesis
  proof (cases "select_episodes st sid = []")
    case True
    then have "r = Inl (TaskSuccess NoEpisodes)" using i(7) by simp
    then have "st' = st1" using run l by (simp add: reorder_txn_def)
    then show ?thesis using i True by simp
  next
    case False
    then have r: "r = Inr (animeId info, int k + 1, select_episodes st sid)" using i(7) by simp
    let ?st2 = "st1\<lparr>calls := calls st1 @ [ProgressCompute]\<rparr>"
    obtain p fs where p: "plan_loop flt (animeId info) (int k + 1) 0 (select_episodes st sid) (files st) = (p, fs)"
      by (cases "plan_loop flt (animeId info) (int k + 1) 0 (select_episodes st sid) (files st)")
    have run': "(case p of Inl f \<Rightarrow> (Fault f, ?st2\<lparr>files := fs\<rparr>)
                 | Inr (dels, adds) \<Rightarrow>
                     if dels = [] then (TaskSuccess AlreadyCorrect, ?st2\<lparr>files := fs\<rparr>)
                     else apply_plan flt dels adds (?st2\<lparr>files := fs\<rparr>)) = (TaskSuccess m, st')"
      using run l r p i(6) by (simp add: reorder_txn_def call_def f)
    then obtain dels adds where da: "p = Inr (dels, adds)"
      by (cases p) auto
    show ?thesis
    proof (cases "dels = []")
      case True
      then have "st' = ?st2\<lparr>files := fs\<rparr>" using run' da by simp
      then show ?thesis using i p da True by simp
    next
      case False
      then have ap: "apply_plan flt dels adds (?st2\<lparr>files := fs\<rparr>) = (TaskSuccess m, st')"
        using run' da by simp
      from apply_plan_nofault [OF nofault ap]
      show ?thesis using i p da by simp
    qed
  qed
qed

lemma reorder_success_run:
  assumes nofault: "\<forall>s. flt s = None"
    and clean: "working st = committed st"
    and run: "reorder_episodes_task flt d sid st = (TaskSuccess m, st')"
  shows "\<exists>info k dels adds fs.
           get_anime_source_info st sid = Some info \<and>
           index_of sid (all_source_ids st (animeId info)) = Some k \<and>
           plan_loop flt (animeId info) (int k + 1) 0 (select_episodes st sid) (files st) =
             (Inr (dels, adds), fs) \<and>
           sources st' = sources st \<and> working st' = committed st' \<and>
           \<not> pk_conflict (filter (\<lambda>e. e \<notin> set dels) (working st)) adds \<and>
           committed st' = filter (\<lambda>e. e \<notin> set dels) (working st) @ adds"
proof -
  have f: "flt s = None" for s using nofault by simp
  obtain st0 where s0: "set_fk flt DisableFK d False (st\<lparr>calls := calls st @ [ProgressStart]\<rparr>) = (None, st0)"
    and st0: "committed st0 = committed st" "working st0 = working st" "sources st0 = sources st"
      "files st0 = files st"
    by (cases d) (simp_all add: set_fk_def f)
  let ?st2 = "st0\<lparr>committed := working st0 @ [], working := working st0 @ [], calls := calls st0 @ [CommitDisable]\<rparr>"
  have prot: "reorder_protected flt d sid ?st2 = (TaskSuccess m, st')"
    using run s0 by (simp add: reorder_episodes_task_def call_def commit_def f pk_conflict_def)
  obtain e st3 where t: "reorder_txn flt sid ?st2 = (e, st3)" by (cases "reorder_txn flt sid ?st2")
  let ?st4 = "st3\<lparr>working := committed st3, calls := calls st3 @ [Rollback]\<rparr>"
  obtain st5 where s5: "set_fk flt RestoreFK d True ?st4 = (None, st5)"
    and st5: "committed st5 = committed st3" "working st5 = committed st3" "sources st5 = sources st3"
    by (cases d) (simp_all add: set_fk_def f)
  have fin: "e = TaskSuccess m" "committed st' = committed st3" "working st' = committed st3"
    "sources st' = sources st3"
    using prot t s5 st5
    by (auto simp: reorder_protected_def rollback_def commit_def f pk_conflict_def)
  from reorder_txn_success [OF nofault t [unfolded fin(1)]]
  obtain info k dels adds fs where x:
    "get_anime_source_info ?st2 sid = Some info"
    "index_of sid (all_source_ids ?st2 (animeId info)) = Some k"
    "plan_loop flt (animeId info) (int k + 1) 0 (select_episodes ?st2 sid) (files ?st2) =
             (Inr (dels, adds), fs)"
    "sources st3 = sources ?st2"
    "(dels = [] \<and> committed st3 = committed ?st2 \<and> working st3 = working ?st2) \<or>
            (\<not> pk_conflict (filter (\<lambda>e. e \<notin> set dels) (working ?st2)) adds \<and>
             committed st3 = filter (\<lambda>e. e \<notin> set dels) (working ?st2) @ adds \<and>
             working st3 = committed st3)"
    by blast
  have eqs: "get_anime_source_info ?st2 sid = get_anime_source_info st sid"
    "all_source_ids ?st2 (animeId info) = all_source_ids st (animeId info)"
    "select_episodes ?st2 sid = select_episodes st sid" "files ?st2 = files st"
    "working ?st2 = working st" "committed ?st2 = working st" "sources ?st2 = sources st"
    using st0 by (simp_all add: get_anime_source_info_def all_source_ids_def select_episodes_def)
  have len: "length adds = length dels" using x(3) by (rule plan_loop_lengths)
  have last: "\<not> pk_conflict (filter (\<lambda>e. e \<notin> set dels) (working st)) adds \<and>
           committed st3 = filter (\<lambda>e. e \<notin> set dels) (working st) @ adds"
    using x(5) len unfolding eqs by (auto simp: pk_conflict_def)
  show ?thesis
    using x(1-4) last fin unfolding eqs by auto
qed

lemma reorder_second_run:
  assumes nofault: "\<forall>s. flt s = None"
    and clean: "working st = committed st"
    and pk: "distinct (map ep_id (working st))"
    and run: "reorder_episodes_task flt d sid st = (TaskSuccess m, st1)"
  shows "\<exists>st2. reorder_episodes_task flt d sid st1 =
            (TaskSuccess (if select_episodes st1 sid = [] then NoEpisodes else AlreadyCorrect), st2) \<and>
          committed st2 = committed st1 \<and> working st2 = working st1 \<and> files st2 = files st1"
proof -
  from reorder_success_run [OF nofault clean run]
  obtain info k dels adds fs where x:
    "get_anime_source_info st sid = Some info"
    "index_of sid (all_source_ids st (animeId info)) = Some k"
    "plan_loop flt (animeId info) (int k + 1) 0 (select_episodes st sid) (files st) =
             (Inr (dels, adds), fs)"
    "sources st1 = sources st" "working st1 = committed st1"
    "\<not> pk_conflict (filter (\<lambda>e. e \<notin> set dels) (working st)) adds"
    "committed st1 = filter (\<lambda>e. e \<notin> set dels) (working st) @ adds"
    by blast
  have src1: "get_anime_source_info st1 sid = Some info"
    using x(1,4) by (simp add: get_anime_source_info_def)
  have rank: "source_rank st1 (animeId info) sid = int k + 1"
    using source_order_rank [OF x(2)] x(4) by (simp add: source_rank_def)
  have sel: "select_episodes st sid =
      sort_key (\<lambda>e. (episodeIndex e, ep_id e)) (filter (\<lambda>e. sourceId e = sid) (working st))"
    by (simp add: select_episodes_def)
  have sel1: "select_episodes st1 sid =
      sort_key (\<lambda>e. (episodeIndex e, ep_id e))
        (filter (\<lambda>e. sourceId e = sid) (filter (\<lambda>e. e \<notin> set dels) (working st) @ adds))"
    using x(5,7) by (simp add: select_episodes_def)
  have ok1: "already_correct (animeId info) (source_rank st1 (animeId info) sid) (select_episodes st1 sid)"
    unfolding rank sel1 using x(3) sel pk x(6) by (rule canonical_after)
  from reorder_noop_run [OF nofault x(5) src1 ok1, of d]
  show ?thesis by blast
qed


section \<open>Runs on the small catalog\<close>

lemma demo_ids:
  "episode_new_id 7 2 1 = Some 25000007020001" "episode_new_id 7 2 2 = Some 25000007020002"
  by (simp_all add: episode_new_id_value)

lemma demo_select: "select_episodes demo_store 2 =
    [demo_episode 25000007020001 2 1 None, demo_episode 102 2 3 None]"
  by (simp add: select_episodes_def demo_store_def demo_rows_def demo_episode_def)

lemma demo_select_done: "select_episodes demo_store_done 2 =
    [demo_episode 25000007020001 2 1 None, demo_episode 25000007020002 2 2 None]"
  by (simp add: select_episodes_def demo_store_done_def demo_store_def demo_rows_done_def demo_episode_def)

lemma demo_run_flush_fault:
  "reorder_episodes_task (fault_at Flush OperationalError) MySQL 2 demo_store =
     (Fault OperationalError,
      demo_store\<lparr>calls := [ProgressStart, DisableFK, CommitDisable, GetSourceInfo, SelectSources,
         SelectEpisodes, ProgressCompute, ProgressMigrate, Delete 0, Rollback, RestoreFK,
         CommitRestore], raised := [Flush]\<rparr>)"
  by (simp add: reorder_episodes_task_def reorder_protected_def reorder_txn_def apply_plan_def
      lookup_source_def call_def commit_def set_fk_def rollback_def pk_conflict_def fault_at_def
      get_anime_source_info_def all_source_ids_def select_episodes_def demo_ids relocate_def
      demo_store_def demo_rows_def demo_episode_def)

lemma demo_run_commit_fault:
  "reorder_episodes_task (fault_at CommitDisable OperationalError) MySQL 2 demo_store =
     (Fault OperationalError,
      demo_store\<lparr>fk_checks := False, calls := [ProgressStart, DisableFK],
                  raised := [CommitDisable]\<rparr>)"
  by (simp add: reorder_episodes_task_def call_def commit_def set_fk_def fault_at_def demo_store_def)

lemma demo_run:
  "reorder_episodes_task (\<lambda>_. None) MySQL 2 demo_store =
     (TaskSuccess (Migrated 1),
      demo_store_done\<lparr>calls := [ProgressStart, DisableFK, CommitDisable, GetSourceInfo, SelectSources,
         SelectEpisodes, ProgressCompute, ProgressMigrate, Delete 0, Flush, CommitMigration,
         Rollback, RestoreFK, CommitRestore]\<rparr>)"
  by (simp add: reorder_episodes_task_def reorder_protected_def reorder_txn_def apply_plan_def
      lookup_source_def call_def commit_def set_fk_def rollback_def pk_conflict_def
      get_anime_source_info_def all_source_ids_def select_episodes_def demo_ids relocate_def
      demo_store_done_def demo_store_def demo_rows_def demo_rows_done_def demo_episode_def
      del: set_removeAll)


lemma committed_demo_done: "committed demo_store_done = demo_rows_done"
  by (simp add: demo_store_done_def)

lemma demo_done_facts:
  "get_anime_source_info demo_store_done 2 = Some \<lparr>src_id = 2, animeId = 7\<rparr>"
  "source_rank demo_store_done 7 2 = 2"
  "working demo_store_done = committed demo_store_done"
  "distinct (map ep_id (working demo_store_done))"
  by (simp_all add: get_anime_source_info_def source_rank_def demo_store_done_def demo_store_def
      demo_rows_done_def demo_episode_def)

lemma demo_facts:
  "get_anime_source_info demo_store 2 = Some \<lparr>src_id = 2, animeId = 7\<rparr>"
  "working demo_store = committed demo_store"
  "distinct (map ep_id (working demo_store))"
  by (simp_all add: get_anime_source_info_def demo_store_def demo_rows_def demo_episode_def)

lemma demo_select_after:
  "select_episodes (demo_store_done\<lparr>calls := cs\<rparr>) 2 =
     [demo_episode 25000007020001 2 1 None, demo_episode 25000007020002 2 2 None]"
  by (simp add: select_episodes_def demo_store_done_def demo_store_def demo_rows_done_def demo_episode_def)


section \<open>Claims about the reorder job\<close>

text \<open>
  Claim C1. Take the source order and the episode list that step 1 of the job finds, and
  the rows that the loop stages. The source order is the 1-based rank of the source id
  among the ids of the work's sources. For the episode at 0-based position \<open>i\<close> the
  decimal string made of \<open>25\<close>, the work id on 6 digits, the source order on 2 digits and
  \<open>i + 1\<close> on 4 digits reads as an integer \<open>nid\<close>, and either the episode has identity
  \<open>nid\<close> and index \<open>i + 1\<close> already, or it is staged for deletion together with a new row
  that has identity \<open>nid\<close>, index \<open>i + 1\<close> and otherwise the old fields.
\<close>

theorem reorder_new_identity:
  assumes "lookup_source flt sid st = (Inr (a, so, eps), st1)"
    and "plan_loop flt a so 0 eps fs = (Inr (dels, adds), fs')"
    and "i < length eps"
  shows "so = source_rank st a sid \<and>
         (\<exists>nid. py_int (''25'' @ fmt_0d 6 a @ fmt_0d 2 so @ fmt_0d 4 (int i + 1)) = Some nid \<and>
            ((ep_id (eps ! i) = nid \<and> episodeIndex (eps ! i) = int i + 1) \<or>
             (\<exists>j < length adds. j < length dels \<and> dels ! j = eps ! i \<and>
                renumbered (eps ! i) nid (int i + 1) (adds ! j))))"
proof -
  have "so = source_rank st a sid"
    using lookup_source_result [OF assms(1)] by simp
  moreover have "\<exists>nid. episode_new_id a so (int (0 + i) + 1) = Some nid \<and>
           ((ep_id (eps ! i) = nid \<and> episodeIndex (eps ! i) = int (0 + i) + 1) \<or>
            (\<exists>j < length adds. j < length dels \<and> dels ! j = eps ! i \<and>
               renumbered (eps ! i) nid (int (0 + i) + 1) (adds ! j)))"
    using assms(2,3) by (rule plan_loop_positions)
  ultimately show ?thesis
    by (simp add: episode_new_id_def new_id_string_def)
qed

theorem reorder_new_identity_witness:
  "source_rank demo_store 7 2 = 2 \<and>
   (\<exists>nid. py_int (''25'' @ fmt_0d 6 7 @ fmt_0d 2 2 @ fmt_0d 4 2) = Some nid \<and>
      renumbered (demo_episode 102 2 3 None) nid 2 (demo_episode nid 2 2 None))"
proof -
  have l: "lookup_source (\<lambda>_. None) 2 demo_store =
      (Inr (7, 2, [demo_episode 25000007020001 2 1 None, demo_episode 102 2 3 None]),
       demo_store\<lparr>calls := [GetSourceInfo, SelectSources, SelectEpisodes]\<rparr>)"
    by (simp add: lookup_source_def call_def get_anime_source_info_def all_source_ids_def
        select_episodes_def demo_store_def demo_rows_def demo_episode_def)
  have p: "plan_loop (\<lambda>_. None) 7 2 0
        [demo_episode 25000007020001 2 1 None, demo_episode 102 2 3 None] [] =
      (Inr ([demo_episode 102 2 3 None], [demo_episode 25000007020002 2 2 None]), [])"
    by (simp add: demo_ids relocate_def demo_episode_def)
  have n: "py_int (''25'' @ fmt_0d 6 7 @ fmt_0d 2 2 @ fmt_0d 4 2) = Some 25000007020002"
    using demo_ids(2) by (simp add: episode_new_id_def new_id_string_def)
  show ?thesis
    using reorder_new_identity [OF l p, of 1] n
    by (simp add: renumbered_def demo_episode_def)
qed

text \<open>
  Claim C2. Start from a session without pending changes. Whatever faults the calls of
  the job raise: unless the final commit of the renumbering was carried out, the
  committed episode rows after the run are the rows before the run, identities, indices
  and file paths included, and the session holds no staged change any more.
\<close>

theorem reorder_fault_keeps_rows:
  assumes clean: "working st = committed st"
    and run: "reorder_episodes_task flt d sid st = (r, st')"
    and nocommit: "CommitMigration \<notin> set (calls st')"
  shows "committed st' = committed st \<and> working st' = committed st"
proof -
  obtain r0 st0 where c0: "call flt ProgressStart st = (r0, st0)" by force
  obtain r1 st1 where c1: "set_fk flt DisableFK d False st0 = (r1, st1)" by force
  obtain r2 st2 where c2: "commit flt CommitDisable [] st1 = (r2, st2)" by force
  have q0: "quiet_step st st0" and w0: "working st0 = working st"
    using call_quiet [OF c0] call_fields [OF c0] by simp_all
  have q1: "quiet_step st0 st1" and w1: "working st1 = working st0"
    using set_fk_quiet [OF c1] by simp_all
  have clean0: "working st0 = committed st0" using q0 w0 clean by (simp add: quiet_step_def)
  have clean1: "working st1 = committed st1" using q1 w1 clean0 by (simp add: quiet_step_def)
  have q2: "quiet_step st1 st2" and clean2: "working st2 = committed st2"
    using commit_plain_quiet [OF c2 _ clean1] by simp_all
  have q01: "quiet_step st st1" using q0 q1 by (rule quiet_step_trans)
  have q02: "quiet_step st st2" using q01 q2 by (rule quiet_step_trans)
  consider (early0) "st' = st0" "r0 \<noteq> None" | (early1) "st' = st1" "r1 \<noteq> None"
    | (early2) "st' = st2" "r2 \<noteq> None" | (inner) "reorder_protected flt d sid st2 = (r, st')"
    using run c0 c1 c2 by (auto simp: reorder_episodes_task_def split: option.splits)
  then show ?thesis
  proof cases
    case early0
    then show ?thesis using q0 clean0 by (simp add: quiet_step_def)
  next
    case early1
    then show ?thesis using q01 clean1 by (simp add: quiet_step_def)
  next
    case early2
    then show ?thesis using q02 clean2 by (simp add: quiet_step_def)
  next
    case inner
    from reorder_protected_rows [OF clean2 inner nocommit]
    show ?thesis using q02 by (simp add: quiet_step_def)
  qed
qed

theorem reorder_fault_keeps_rows_witness:
  "working demo_store = committed demo_store \<and>
   fst (reorder_episodes_task (fault_at Flush OperationalError) MySQL 2 demo_store) =
     Fault OperationalError \<and>
   CommitMigration \<notin>
     set (calls (snd (reorder_episodes_task (fault_at Flush OperationalError) MySQL 2 demo_store))) \<and>
   committed (snd (reorder_episodes_task (fault_at Flush OperationalError) MySQL 2 demo_store)) =
     demo_rows"
proof -
  let ?run = "reorder_episodes_task (fault_at Flush OperationalError) MySQL 2 demo_store"
  have c: "working demo_store = committed demo_store"
    by (simp add: demo_store_def)
  have r: "?run = (fst ?run, snd ?run)" by simp
  have n: "CommitMigration \<notin> set (calls (snd ?run))"
    by (simp add: demo_run_flush_fault)
  have "committed (snd ?run) = committed demo_store"
    using reorder_fault_keeps_rows [OF c r n] by simp
  then show ?thesis
    using c n by (simp add: demo_run_flush_fault) (simp add: demo_store_def)
qed

text \<open>
  Claim C3 does not hold on the path where the commit that follows the statement
  switching the checks off raises: that commit is outside the \<^verbatim>\<open>try\<close> whose \<^verbatim>\<open>finally\<close>
  switches them back on. On MySQL the job then ends with the fault and the integrity
  checks still off.
\<close>

theorem reorder_commit_fault_leaves_checks_off:
  "reorder_episodes_task (fault_at CommitDisable OperationalError) MySQL 2 demo_store =
     (Fault OperationalError,
      demo_store\<lparr>fk_checks := False, calls := [ProgressStart, DisableFK],
                  raised := [CommitDisable]\<rparr>)
   \<and> fk_checks demo_store"
  using demo_run_commit_fault by (simp add: demo_store_def)

text \<open>
  Claim C4. In a clean session with no fault: when every episode of the source has the
  identity of its position and the index of its position, the job ends with a success
  message that reports no migration, the rows and files are as before, and the same holds
  for a second run right after the first. And when the identities of the rows are
  distinct, as a primary key makes them, after any run that ends with a success message,
  also one that migrated episodes, the next run ends with a success message that reports
  no migration and leaves the rows and files as it found them.
\<close>

theorem reorder_twice_noop:
  assumes nofault: "\<forall>s. flt s = None"
    and clean: "working st = committed st"
    and src: "get_anime_source_info st sid = Some info"
  shows "(already_correct (animeId info) (source_rank st (animeId info) sid) (select_episodes st sid) \<longrightarrow>
          (\<exists>st1 st2.
             reorder_episodes_task flt d sid st =
               (TaskSuccess (if select_episodes st sid = [] then NoEpisodes else AlreadyCorrect), st1) \<and>
             committed st1 = committed st \<and> working st1 = working st \<and> files st1 = files st \<and>
             reorder_episodes_task flt d sid st1 =
               (TaskSuccess (if select_episodes st sid = [] then NoEpisodes else AlreadyCorrect), st2) \<and>
             committed st2 = committed st \<and> working st2 = working st \<and> files st2 = files st)) \<and>
         (distinct (map ep_id (working st)) \<longrightarrow>
          (\<forall>m st1. reorder_episodes_task flt d sid st = (TaskSuccess m, st1) \<longrightarrow>
             (\<exists>st2.
                reorder_episodes_task flt d sid st1 =
                  (TaskSuccess (if select_episodes st1 sid = [] then NoEpisodes else AlreadyCorrect), st2) \<and>
                committed st2 = committed st1 \<and> working st2 = working st1 \<and> files st2 = files st1)))"
proof (intro conjI impI allI)
  assume ok: "already_correct (animeId info) (source_rank st (animeId info) sid) (select_episodes st sid)"
  from reorder_noop_run [OF nofault clean src ok, of d]
  obtain st1 where r1: "reorder_episodes_task flt d sid st =
            (TaskSuccess (if select_episodes st sid = [] then NoEpisodes else AlreadyCorrect), st1)"
    and f1: "committed st1 = committed st" "working st1 = working st" "files st1 = files st"
      "sources st1 = sources st"
    by blast
  have clean1: "working st1 = committed st1" using f1 clean by simp
  have src1: "get_anime_source_info st1 sid = Some info"
    using src f1 by (simp add: get_anime_source_info_def)
  have sel1: "select_episodes st1 sid = select_episodes st sid"
    using f1 by (simp add: select_episodes_def)
  have ok1: "already_correct (animeId info) (source_rank st1 (animeId info) sid) (select_episodes st1 sid)"
    using ok f1 sel1 by (simp add: source_rank_def)
  from reorder_noop_run [OF nofault clean1 src1 ok1, of d]
  obtain st2 where r2: "reorder_episodes_task flt d sid st1 =
            (TaskSuccess (if select_episodes st1 sid = [] then NoEpisodes else AlreadyCorrect), st2)"
    and f2: "committed st2 = committed st1" "working st2 = working st1" "files st2 = files st1"
    by blast
  show "\<exists>st1 st2.
             reorder_episodes_task flt d sid st =
               (TaskSuccess (if select_episodes st sid = [] then NoEpisodes else AlreadyCorrect), st1) \<and>
             committed st1 = committed st \<and> working st1 = working st \<and> files st1 = files st \<and>
             reorder_episodes_task flt d sid st1 =
               (TaskSuccess (if select_episodes st sid = [] then NoEpisodes else AlreadyCorrect), st2) \<and>
             committed st2 = committed st \<and> working st2 = working st \<and> files st2 = files st"
    using r1 r2 f1 f2 sel1 by simp
next
  fix m st1
  assume pk: "distinct (map ep_id (working st))"
    and run: "reorder_episodes_task flt d sid st = (TaskSuccess m, st1)"
  show "\<exists>st2.
                reorder_episodes_task flt d sid st1 =
                  (TaskSuccess (if select_episodes st1 sid = [] then NoEpisodes else AlreadyCorrect), st2) \<and>
                committed st2 = committed st1 \<and> working st2 = working st1 \<and> files st2 = files st1"
    using nofault clean pk run by (rule reorder_second_run)
qed

theorem reorder_twice_noop_witness:
  "(\<exists>st1 st2.
     reorder_episodes_task (\<lambda>_. None) MySQL 2 demo_store_done = (TaskSuccess AlreadyCorrect, st1) \<and>
     reorder_episodes_task (\<lambda>_. None) MySQL 2 st1 = (TaskSuccess AlreadyCorrect, st2) \<and>
     committed st2 = demo_rows_done) \<and>
   (\<exists>st1 st2.
     reorder_episodes_task (\<lambda>_. None) MySQL 2 demo_store = (TaskSuccess (Migrated 1), st1) \<and>
     reorder_episodes_task (\<lambda>_. None) MySQL 2 st1 = (TaskSuccess AlreadyCorrect, st2) \<and>
     committed st2 = demo_rows_done)"
proof -
  have ok: "already_correct (animeId \<lparr>src_id = 2, animeId = 7\<rparr>)
      (source_rank demo_store_done (animeId \<lparr>src_id = 2, animeId = 7\<rparr>) 2)
      (select_episodes demo_store_done 2)"
    by (simp add: demo_done_facts(2) demo_select_done already_correct_def All_less_Suc demo_ids demo_episode_def)
  have nofault: "\<forall>s. (\<lambda>_. None :: fault option) s = None" by simp
  have a: "\<exists>st1 st2.
     reorder_episodes_task (\<lambda>_. None) MySQL 2 demo_store_done = (TaskSuccess AlreadyCorrect, st1) \<and>
     reorder_episodes_task (\<lambda>_. None) MySQL 2 st1 = (TaskSuccess AlreadyCorrect, st2) \<and>
     committed st2 = demo_rows_done"
    using reorder_twice_noop [OF nofault demo_done_facts(3) demo_done_facts(1), of MySQL] ok
    by (simp add: demo_select_done committed_demo_done) blast
  have b: "\<exists>st1 st2.
     reorder_episodes_task (\<lambda>_. None) MySQL 2 demo_store = (TaskSuccess (Migrated 1), st1) \<and>
     reorder_episodes_task (\<lambda>_. None) MySQL 2 st1 = (TaskSuccess AlreadyCorrect, st2) \<and>
     committed st2 = demo_rows_done"
    using reorder_twice_noop [OF nofault demo_facts(2) demo_facts(1), of MySQL] demo_facts(3)
    by (simp add: demo_run demo_select_after committed_demo_done) blast
  show ?thesis using a b by (rule conjI)
qed

section \<open>Range compression: tokens and runs\<close>

lemma range_loop_runs: "range_loop s e xs = map (\<lambda>(a, b). range_token a b) (runs s e xs)"
  by (induction xs arbitrary: s e) auto

lemma runs_nonempty: "runs s e xs \<noteq> []"
  by (induction xs arbitrary: s e) auto

lemma runs_bounds:
  "s \<le> e \<Longrightarrow> sorted_wrt (<) (e # xs) \<Longrightarrow> r \<in> set (runs s e xs) \<Longrightarrow>
     s \<le> fst r \<and> fst r \<le> snd r"
proof (induction xs arbitrary: s e)
  case Nil
  then show ?case by auto
next
  case (Cons x xs)
  have ex: "e < x" and sx: "sorted_wrt (<) (x # xs)"
    using Cons.prems(2) by simp_all
  show ?case
  proof (cases "x = e + 1")
    case True
    then have "r \<in> set (runs s x xs)" using Cons.prems(3) by simp
    moreover have "s \<le> x" using Cons.prems(1) ex by simp
    ultimately show ?thesis using Cons.IH [of s x] sx by blast
  next
    case False
    then have "r = (s, e) \<or> r \<in> set (runs x x xs)" using Cons.prems(3) by auto
    then show ?thesis
    proof
      assume "r = (s, e)"
      then show ?thesis using Cons.prems(1) by simp
    next
      assume "r \<in> set (runs x x xs)"
      then have "x \<le> fst r \<and> fst r \<le> snd r" using Cons.IH [of x x] sx by blast
      then show ?thesis using Cons.prems(1) ex by simp
    qed
  qed
qed

lemma runs_separated:
  "s \<le> e \<Longrightarrow> sorted_wrt (<) (e # xs) \<Longrightarrow>
     sorted_wrt (\<lambda>r r'. snd r + 1 < fst r') (runs s e xs)"
proof (induction xs arbitrary: s e)
  case Nil
  then show ?case by simp
next
  case (Cons x xs)
  have ex: "e < x" and sx: "sorted_wrt (<) (x # xs)"
    using Cons.prems(2) by simp_all
  show ?case
  proof (cases "x = e + 1")
    case True
    moreover have "s \<le> x" using Cons.prems(1) ex by simp
    ultimately show ?thesis using Cons.IH [of s x] sx by simp
  next
    case False
    have "e + 1 < fst r" if "r \<in> set (runs x x xs)" for r
      using runs_bounds [of x x xs r] that sx ex False by simp
    moreover have "sorted_wrt (\<lambda>r r'. snd r + 1 < fst r') (runs x x xs)"
      using Cons.IH [of x x] sx by simp
    ultimately show ?thesis using False by simp
  qed
qed

lemma runs_cover:
  "s \<le> e \<Longrightarrow> sorted_wrt (<) (e # xs) \<Longrightarrow>
     (\<Union>r \<in> set (runs s e xs). {fst r .. snd r}) = {s .. e} \<union> set xs"
proof (induction xs arbitrary: s e)
  case Nil
  then show ?case by simp
next
  case (Cons x xs)
  have ex: "e < x" and sx: "sorted_wrt (<) (x # xs)"
    using Cons.prems(2) by simp_all
  show ?case
  proof (cases "x = e + 1")
    case True
    have sx': "s \<le> x" using Cons.prems(1) ex by simp
    have "(\<Union>r \<in> set (runs s x xs). {fst r .. snd r}) = {s .. x} \<union> set xs"
      using sx' sx by (rule Cons.IH)
    moreover have "{s .. x} = {s .. e} \<union> {x}"
      using True Cons.prems(1) by auto
    ultimately show ?thesis using True by simp
  next
    case False
    have "(\<Union>r \<in> set (runs x x xs). {fst r .. snd r}) = {x .. x} \<union> set xs"
      using sx by (intro Cons.IH) simp_all
    then show ?thesis using False by simp
  qed
qed

lemma sorted_wrt_two:
  "sorted_wrt P rs \<Longrightarrow> r \<in> set rs \<Longrightarrow> r' \<in> set rs \<Longrightarrow> r \<noteq> r' \<Longrightarrow> P r r' \<or> P r' r"
  by (induction rs) auto

lemma strict_sorted_sort_remdups: "sorted_wrt (<) (sort (remdups (xs :: int list)))"
  by (simp add: strict_sorted_iff)

lemma ex_generate:
  "generate_episode_range_string [1, 2, 3, 5, 8, 9, 10] = ''1-3, 5, 8-10''"
  by (simp add: generate_episode_range_string_def range_token_def py_str_def str_nat.simps
      digit_char_def)

text \<open>
  Claim C8. For a list of indices that is not empty the result is the join with comma and
  space of the tokens of a list of runs: every run first \<open>\<le>\<close> last, a run of one index
  printed as the number and a longer one as first-last; the runs are ascending with a gap
  between any two of them (so each is maximal); together they cover exactly the input
  indices, and every input index lies in exactly one run. The indices 1, 2, 3, 5, 8, 9, 10
  give \<open>1-3, 5, 8-10\<close>, and no index gives the token for none.
\<close>

theorem range_string_tokens:
  "(xs \<noteq> [] \<longrightarrow>
      (\<exists>rs. generate_episode_range_string xs =
              join '', '' (map (\<lambda>(a, b). if a = b then py_str a else py_str a @ ''-'' @ py_str b) rs) \<and>
            rs \<noteq> [] \<and>
            (\<forall>r \<in> set rs. fst r \<le> snd r) \<and>
            sorted_wrt (\<lambda>r r'. snd r + 1 < fst r') rs \<and>
            (\<Union>r \<in> set rs. {fst r .. snd r}) = set xs \<and>
            (\<forall>x \<in> set xs. \<exists>!r. r \<in> set rs \<and> fst r \<le> x \<and> x \<le> snd r))) \<and>
   generate_episode_range_string [1, 2, 3, 5, 8, 9, 10] = ''1-3, 5, 8-10'' \<and>
   generate_episode_range_string [] = none_token"
proof (intro conjI impI)
  assume ne: "xs \<noteq> []"
  have "sort (remdups xs) \<noteq> []"
    using ne by (metis set_empty set_remdups set_sort)
  then obtain y ys where ys: "sort (remdups xs) = y # ys"
    by (cases "sort (remdups xs)") auto
  have st: "sorted_wrt (<) (y # ys)"
    using strict_sorted_sort_remdups [of xs] ys by simp
  have set: "set xs = {y .. y} \<union> set ys"
  proof -
    have "set xs = set (sort (remdups xs))" by simp
    then show ?thesis unfolding ys by simp
  qed
  let ?rs = "runs y y ys"
  have g: "generate_episode_range_string xs =
      join '', '' (map (\<lambda>(a, b). if a = b then py_str a else py_str a @ ''-'' @ py_str b) ?rs)"
    using ne ys by (simp add: generate_episode_range_string_def range_loop_runs range_token_def)
  have b: "\<forall>r \<in> set ?rs. fst r \<le> snd r"
    using runs_bounds [of y y ys] st by blast
  have sep: "sorted_wrt (\<lambda>r r'. snd r + 1 < fst r') ?rs"
    using st by (intro runs_separated) simp_all
  have cov: "(\<Union>r \<in> set ?rs. {fst r .. snd r}) = set xs"
    unfolding set using st by (intro runs_cover) simp_all
  have uniq: "\<forall>x \<in> set xs. \<exists>!r. r \<in> set ?rs \<and> fst r \<le> x \<and> x \<le> snd r"
  proof
    fix x assume "x \<in> set xs"
    then have "x \<in> (\<Union>r \<in> set ?rs. {fst r .. snd r})" using cov by simp
    then obtain r where r: "r \<in> set ?rs" "fst r \<le> x" "x \<le> snd r" by auto
    show "\<exists>!r. r \<in> set ?rs \<and> fst r \<le> x \<and> x \<le> snd r"
    proof (rule ex1I [of _ r])
      show "r \<in> set ?rs \<and> fst r \<le> x \<and> x \<le> snd r" using r by simp
    next
      fix r' assume r': "r' \<in> set ?rs \<and> fst r' \<le> x \<and> x \<le> snd r'"
      show "r' = r"
      proof (rule ccontr)
        assume "r' \<noteq> r"
        then have "snd r' + 1 < fst r \<or> snd r + 1 < fst r'"
          using sorted_wrt_two [OF sep, of r' r] r(1) r' by blast
        then show False using r r' by auto
      qed
    qed
  qed
  show "\<exists>rs. generate_episode_range_string xs =
              join '', '' (map (\<lambda>(a, b). if a = b then py_str a else py_str a @ ''-'' @ py_str b) rs) \<and>
            rs \<noteq> [] \<and>
            (\<forall>r \<in> set rs. fst r \<le> snd r) \<and>
            sorted_wrt (\<lambda>r r'. snd r + 1 < fst r') rs \<and>
            (\<Union>r \<in> set rs. {fst r .. snd r}) = set xs \<and>
            (\<forall>x \<in> set xs. \<exists>!r. r \<in> set rs \<and> fst r \<le> x \<and> x \<le> snd r)"
    using g b sep cov uniq runs_nonempty [of y y ys] by blast
next
  show "generate_episode_range_string [1, 2, 3, 5, 8, 9, 10] = ''1-3, 5, 8-10''"
    by (rule ex_generate)
next
  show "generate_episode_range_string [] = none_token"
    by (simp add: generate_episode_range_string_def)
qed

theorem range_string_tokens_witness:
  "[4, 2, 1, 1 :: int] \<noteq> [] \<and>
   generate_episode_range_string [4, 2, 1, 1] = ''1-2, 4'' \<and>
   (\<exists>rs. generate_episode_range_string [4, 2, 1, 1] =
              join '', '' (map (\<lambda>(a, b). if a = b then py_str a else py_str a @ ''-'' @ py_str b) rs) \<and>
          (\<Union>r \<in> set rs. {fst r .. snd r}) = {1, 2, 4})"
proof -
  have "generate_episode_range_string [4, 2, 1, 1] = ''1-2, 4''"
    by (simp add: generate_episode_range_string_def range_token_def py_str_def str_nat.simps
      digit_char_def)
  moreover have "set [4, 2, 1, 1 :: int] = {1, 2, 4}" by auto
  ultimately show ?thesis
    using range_string_tokens [of "[4, 2, 1, 1]"] by auto
qed

section \<open>Claims about the episode-processing loop\<close>

lemma httpx_unbound: "''httpx'' \<notin> set module_names"
  by (simp add: module_names_def)

text \<open>
  Claim C5. When the rate limiter's check raises the rate-limit signal with wait \<open>d\<close>
  while the loop is at episode \<open>i\<close>, the pass reports \<^verbatim>\<open>PAUSED\<close> with \<open>d\<close> for episode \<open>i\<close> and
  sleeps for \<open>d\<close>, and nothing else happens: the index, the count of failed episodes, the
  number of increments of the rate limiter and the count of comments are as before, and
  the loop goes on from that state, at the same episode, with the next answer.
\<close>

theorem rate_limit_retries_same_episode:
  assumes "idx s < length episodes"
  shows "\<exists>s'. episode_step episodes (CheckRaises (RateLimitExceededError d)) s = Inr s' \<and>
           events s' = events s @ [Report (idx s) Processing, CheckLimit, Report (idx s) (Paused d), Sleep d] \<and>
           idx s' = idx s \<and>
           failed_episodes_count s' = failed_episodes_count s \<and>
           budget_used s' = budget_used s \<and>
           total_comments_added s' = total_comments_added s \<and>
           process_episode_list episodes (CheckRaises (RateLimitExceededError d) # rs) s =
             process_episode_list episodes rs s'"
  using assms by (simp add: episode_step_def handle_exn_def)

theorem rate_limit_retries_same_episode_witness:
  "idx initial_loop_state < length demo_episodes \<and>
   process_episode_list demo_episodes
     [CheckRaises (RateLimitExceededError 30), Fetched [demo_comment] None, Fetched [] None]
     initial_loop_state =
   Some (Inr \<lparr>idx = 2, total_comments_added = 1, failed_episodes_count = 0, budget_used = 1,
     events = [Report 0 Processing, CheckLimit, Report 0 (Paused 30), Sleep 30,
               Report 0 Processing, CheckLimit, Fetch ''e1'', Increment, Store ''e1'' 1, Commit,
               Report 1 Processing, CheckLimit, Fetch ''e2'']\<rparr>)"
  using rate_limit_retries_same_episode
    [of initial_loop_state demo_episodes 30 "[Fetched [demo_comment] None, Fetched [] None]"]
  by (simp add: episode_step_def handle_exn_def demo_episodes_def initial_loop_state_def)

text \<open>
  Claim C6 does not hold: the module never binds the name \<^verbatim>\<open>httpx\<close>, so when the fetch of
  the first episode raises a request error, matching it against the second \<^verbatim>\<open>except\<close> clause
  raises NameError, which leaves the loop and the function. No episode is counted as
  failed and the second episode is never fetched.
\<close>

theorem transport_fault_aborts_loop:
  "process_episode_list demo_episodes [FetchRaises RequestError, Fetched [demo_comment] None]
     initial_loop_state = Some (Inl NameError)"
  by (simp add: episode_step_def handle_exn_def httpx_unbound demo_episodes_def initial_loop_state_def)

section \<open>Bulk deletion: items before a fault\<close>

lemma find_none_filter:
  "find (\<lambda>e. ep_id e = x) rows = None \<Longrightarrow> filter (\<lambda>e. ep_id e \<noteq> x) rows = rows"
  by (induction rows) (auto split: if_splits)

lemma find_some_removeAll:
  "distinct (map ep_id rows) \<Longrightarrow> find (\<lambda>e. ep_id e = x) rows = Some r \<Longrightarrow>
     removeAll r rows = filter (\<lambda>e. ep_id e \<noteq> x) rows"
proof (induction rows)
  case Nil
  then show ?case by simp
next
  case (Cons a rows)
  show ?case
  proof (cases "ep_id a = x")
    case True
    then have r: "r = a" using Cons.prems(2) by simp
    have "ep_id a \<notin> ep_id ` set rows" using Cons.prems(1) by simp
    then have "\<forall>e \<in> set rows. ep_id e \<noteq> x" using True by (metis imageI)
    then have "filter (\<lambda>e. ep_id e \<noteq> x) rows = rows" by (simp add: filter_id_conv)
    moreover have "a \<notin> set rows" using Cons.prems(1) by auto
    ultimately show ?thesis using r True by simp
  next
    case False
    then have f: "find (\<lambda>e. ep_id e = x) rows = Some r" using Cons.prems(2) by simp
    then have "ep_id r = x" by (auto simp: find_Some_iff)
    then have "r \<noteq> a" using False by auto
    then show ?thesis using Cons.IH [OF _ f] Cons.prems(1) False by simp
  qed
qed

lemma without_ids_Cons: "without_ids (x # xs) rows = without_ids xs (filter (\<lambda>e. ep_id e \<noteq> x) rows)"
  by (induction rows) (auto simp: without_ids_def)

lemma without_ids_distinct: "distinct (map ep_id rows) \<Longrightarrow> distinct (map ep_id (without_ids ids rows))"
  by (simp add: without_ids_def distinct_map_filter)

lemma filter_ids_distinct:
  "distinct (map ep_id rows) \<Longrightarrow> distinct (map ep_id (filter (\<lambda>e. ep_id e \<noteq> x) rows))"
  by (simp add: distinct_map_filter)

text \<open>One item whose calls all complete.\<close>

lemma bulk_loop_item:
  assumes clean: "working st = committed st"
    and pk: "distinct (map ep_id (committed st))"
    and ok: "flt (ItemProgress i) = None" "flt (Get i) = None" "flt (Delete i) = None"
            "flt (ItemCommit i) = None"
  shows "\<exists>n' st'. bulk_loop flt i (x # rest) n st = bulk_loop flt (Suc i) rest n' st' \<and>
           committed st' = filter (\<lambda>e. ep_id e \<noteq> x) (committed st) \<and>
           working st' = committed st' \<and> fk_checks st' = fk_checks st \<and>
           raised st' = raised st \<and>
           calls st' = calls st @
             (if x \<in> ep_id ` set (committed st)
              then [ItemProgress i, Get i, Delete i, ItemCommit i, Pace i]
              else [ItemProgress i, Get i])"
proof (cases "find (\<lambda>e. ep_id e = x) (committed st)")
  case None
  let ?st' = "st\<lparr>calls := calls st @ [ItemProgress i, Get i]\<rparr>"
  have absent: "x \<notin> ep_id ` set (committed st)"
    using None by (auto simp: find_None_iff)
  have "bulk_loop flt i (x # rest) n st = bulk_loop flt (Suc i) rest n ?st'"
    using None ok clean by (simp add: call_def)
  moreover have "committed ?st' = filter (\<lambda>e. ep_id e \<noteq> x) (committed st)"
    using find_none_filter [OF None] by simp
  ultimately show ?thesis using clean absent by (intro exI [of _ n] exI [of _ ?st']) simp
next
  case (Some r)
  let ?rows = "removeAll r (committed st)"
  let ?st' = "st\<lparr>files := delete_danmaku_file flt i (danmakuFilePath r) (files st),
                  committed := ?rows, working := ?rows,
                  calls := calls st @ [ItemProgress i, Get i, Delete i, ItemCommit i, Pace i]\<rparr>"
  have "r \<in> set (committed st) \<and> ep_id r = x"
    using Some by (auto simp: find_Some_iff)
  then have present: "x \<in> ep_id ` set (committed st)" by blast
  have "bulk_loop flt i (x # rest) n st = bulk_loop flt (Suc i) rest (Suc n) ?st'"
    using Some ok clean by (simp add: call_def commit_def pk_conflict_def)
  moreover have "committed ?st' = filter (\<lambda>e. ep_id e \<noteq> x) (committed st)"
    using find_some_removeAll [OF pk Some] by simp
  ultimately show ?thesis using present by (intro exI [of _ "Suc n"] exI [of _ ?st']) simp
qed

lemma bulk_loop_prefix:
  assumes "working st = committed st"
    and "distinct (map ep_id (committed st))"
    and "\<forall>j < length xs. flt (ItemProgress (i + j)) = None \<and> flt (Get (i + j)) = None \<and>
            flt (Delete (i + j)) = None \<and> flt (ItemCommit (i + j)) = None"
  shows "\<exists>n' st'. bulk_loop flt i (xs @ ys) n st = bulk_loop flt (i + length xs) ys n' st' \<and>
           committed st' = without_ids xs (committed st) \<and>
           working st' = committed st' \<and> fk_checks st' = fk_checks st \<and>
           raised st' = raised st \<and>
           calls st' = calls st @ completed_calls i xs (committed st)"
  using assms
proof (induction xs arbitrary: i n st)
  case Nil
  then show ?case by (auto simp: without_ids_def)
next
  case (Cons x xs)
  have ok0: "flt (ItemProgress i) = None" "flt (Get i) = None" "flt (Delete i) = None"
            "flt (ItemCommit i) = None"
    using Cons.prems(3) [rule_format, of 0] by simp_all
  from bulk_loop_item [OF Cons.prems(1,2) ok0, of x "xs @ ys" n]
  obtain n1 st1 where s1: "bulk_loop flt i (x # xs @ ys) n st = bulk_loop flt (Suc i) (xs @ ys) n1 st1"
    and c1: "committed st1 = filter (\<lambda>e. ep_id e \<noteq> x) (committed st)"
    and w1: "working st1 = committed st1" and k1: "fk_checks st1 = fk_checks st"
    and r1: "raised st1 = raised st"
    and l1: "calls st1 = calls st @
             (if x \<in> ep_id ` set (committed st)
              then [ItemProgress i, Get i, Delete i, ItemCommit i, Pace i]
              else [ItemProgress i, Get i])"
    by blast
  have pk1: "distinct (map ep_id (committed st1))"
    using Cons.prems(2) c1 by (simp add: filter_ids_distinct)
  have rest: "\<forall>j < length xs. flt (ItemProgress (Suc i + j)) = None \<and> flt (Get (Suc i + j)) = None \<and>
            flt (Delete (Suc i + j)) = None \<and> flt (ItemCommit (Suc i + j)) = None"
  proof (intro allI impI)
    fix j assume "j < length xs"
    then have "Suc j < length (x # xs)" by simp
    from Cons.prems(3) [rule_format, OF this]
    show "flt (ItemProgress (Suc i + j)) = None \<and> flt (Get (Suc i + j)) = None \<and>
            flt (Delete (Suc i + j)) = None \<and> flt (ItemCommit (Suc i + j)) = None" by simp
  qed
  from Cons.IH [OF w1 pk1 rest, of n1]
  obtain n2 st2 where s2: "bulk_loop flt (Suc i) (xs @ ys) n1 st1 = bulk_loop flt (Suc i + length xs) ys n2 st2"
    and c2: "committed st2 = without_ids xs (committed st1)"
    and w2: "working st2 = committed st2" and k2: "fk_checks st2 = fk_checks st1"
    and r2: "raised st2 = raised st1"
    and l2: "calls st2 = calls st1 @ completed_calls (Suc i) xs (committed st1)"
    by blast
  have l: "calls st2 = calls st @ completed_calls i (x # xs) (committed st)"
    using l1 l2 c1 by simp
  show ?case
    using s1 s2 c1 c2 w2 k1 k2 r1 r2 l
    by (intro exI [of _ n2] exI [of _ st2]) (simp add: without_ids_Cons del: completed_calls.simps)
qed

lemma bulk_loop_commit_fault:
  assumes clean: "working st = committed st"
    and ok: "flt (ItemProgress i) = None" "flt (Get i) = None" "flt (Delete i) = None"
    and bad: "flt (ItemCommit i) = Some f"
    and present: "x \<in> set (map ep_id (committed st))"
  shows "\<exists>st'. bulk_loop flt i (x # rest) n st = (Inl f, st') \<and> committed st' = committed st \<and>
           calls st' = calls st @ [ItemProgress i, Get i, Delete i] \<and>
           raised st' = raised st @ [ItemCommit i]"
proof -
  obtain r where r: "find (\<lambda>e. ep_id e = x) (committed st) = Some r"
    using present by (cases "find (\<lambda>e. ep_id e = x) (committed st)") (auto simp: find_None_iff)
  show ?thesis
    using r ok bad clean by (simp add: call_def commit_def)
qed

section \<open>Claim about bulk deletion\<close>

text \<open>
  Claim C9, as stated, fails: a lock wait timeout at the commit of the second of three
  items ends the batch at once. The calls that completed are those of the first item,
  the report, the lookup and the \<^verbatim>\<open>session.delete\<close> of the second, and the rollback; the one
  call that raised is the commit of the second item: no backoff, no second attempt, and
  the third item is never looked at. The first episode stays deleted.
\<close>

theorem bulk_delete_no_retry:
  "delete_bulk_episodes_task (fault_at (ItemCommit 1) LockWaitTimeout) [11, 12, 13] bulk_store =
     (Fault LockWaitTimeout,
      bulk_store\<lparr>committed := [demo_episode 12 1 2 None, demo_episode 13 1 3 None],
                  working := [demo_episode 12 1 2 None, demo_episode 13 1 3 None],
                  files := [],
                  calls := [ProgressStart, ItemProgress 0, Get 0, Delete 0, ItemCommit 0, Pace 0,
                            ItemProgress 1, Get 1, Delete 1, Rollback],
                  raised := [ItemCommit 1]\<rparr>)"
  by (simp add: delete_bulk_episodes_task_def call_def commit_def rollback_def pk_conflict_def
      fault_at_def delete_danmaku_file_def path_parts_def bulk_store_def bulk_rows_def
      demo_episode_def)

text \<open>
  Claim C9, amended. In a clean session over rows with distinct identities, let the calls
  for the items before position \<open>k\<close> complete, and let the commit that deletes item \<open>k\<close>, an
  episode that exists, raise a fault. Then the batch ends with that fault (or with the
  fault of the rollback). The calls that complete in the whole run are the first report,
  the calls that the items before \<open>k\<close> complete, the report, the lookup and the
  \<^verbatim>\<open>session.delete\<close> of item \<open>k\<close>, and the rollback when it completes; the calls that raise are
  the commit of item \<open>k\<close>, once, and the rollback when it raises. So the commit is attempted
  once, and after it there is no pause, no second attempt at the item and no call for a
  later item. The committed rows are the rows before the run without the episodes of the items before \<open>k\<close>,
  and the session holds no staged change.
\<close>

theorem bulk_delete_fault_at_item:
  assumes clean: "working st = committed st"
    and pk: "distinct (map ep_id (committed st))"
    and k: "k < length ids"
    and start: "flt ProgressStart = None"
    and before: "\<forall>j < k. flt (ItemProgress j) = None \<and> flt (Get j) = None \<and>
                   flt (Delete j) = None \<and> flt (ItemCommit j) = None"
    and at_k: "flt (ItemProgress k) = None" "flt (Get k) = None" "flt (Delete k) = None"
    and bad: "flt (ItemCommit k) = Some f"
    and present: "ids ! k \<in> set (map ep_id (committed st))" "ids ! k \<notin> set (take k ids)"
  shows "\<exists>st'. delete_bulk_episodes_task flt ids st =
                 (Fault (case flt Rollback of None \<Rightarrow> f | Some f' \<Rightarrow> f'), st') \<and>
               committed st' = filter (\<lambda>e. ep_id e \<notin> set (take k ids)) (committed st) \<and>
               working st' = committed st' \<and>
               calls st' =
                 calls st @ [ProgressStart] @ completed_calls 0 (take k ids) (committed st) @
                 [ItemProgress k, Get k, Delete k] @
                 (case flt Rollback of None \<Rightarrow> [Rollback] | Some f' \<Rightarrow> []) \<and>
               raised st' =
                 raised st @ [ItemCommit k] @
                 (case flt Rollback of None \<Rightarrow> [] | Some f' \<Rightarrow> [Rollback])"
proof -
  let ?st0 = "st\<lparr>calls := calls st @ [ProgressStart]\<rparr>"
  have ids: "ids = take k ids @ (ids ! k # drop (Suc k) ids)"
    using k by (simp add: id_take_nth_drop [symmetric])
  have len: "length (take k ids) = k" using k by simp
  have pre: "\<forall>j < length (take k ids). flt (ItemProgress (0 + j)) = None \<and> flt (Get (0 + j)) = None \<and>
            flt (Delete (0 + j)) = None \<and> flt (ItemCommit (0 + j)) = None"
    using before len by simp
  have clean0: "working ?st0 = committed ?st0" using clean by simp
  have pk0: "distinct (map ep_id (committed ?st0))" using pk by simp
  from bulk_loop_prefix [OF clean0 pk0 pre, of "ids ! k # drop (Suc k) ids" 0]
  obtain n1 st1 where
    s1: "bulk_loop flt 0 (take k ids @ (ids ! k # drop (Suc k) ids)) 0 ?st0 =
           bulk_loop flt (0 + length (take k ids)) (ids ! k # drop (Suc k) ids) n1 st1"
    and c1: "committed st1 = without_ids (take k ids) (committed ?st0)"
    and w1: "working st1 = committed st1"
    and l1: "calls st1 = calls ?st0 @ completed_calls 0 (take k ids) (committed ?st0)"
    and r1: "raised st1 = raised ?st0"
    by blast
  have pres1: "ids ! k \<in> set (map ep_id (committed st1))"
    using present c1 by (auto simp: without_ids_def)
  from bulk_loop_commit_fault [OF w1 at_k bad pres1, of "drop (Suc k) ids" n1]
  obtain st2 where s2: "bulk_loop flt k (ids ! k # drop (Suc k) ids) n1 st1 = (Inl f, st2)"
    and c2: "committed st2 = committed st1"
    and l2: "calls st2 = calls st1 @ [ItemProgress k, Get k, Delete k]"
    and r2: "raised st2 = raised st1 @ [ItemCommit k]" by blast
  have "bulk_loop flt 0 ids 0 ?st0 =
          bulk_loop flt 0 (take k ids @ (ids ! k # drop (Suc k) ids)) 0 ?st0"
    using ids by (rule arg_cong [where f = "\<lambda>l. bulk_loop flt 0 l 0 ?st0"])
  also have "\<dots> = bulk_loop flt k (ids ! k # drop (Suc k) ids) n1 st1"
    using s1 by (simp only: len add_0)
  finally have loop: "bulk_loop flt 0 ids 0 ?st0 = (Inl f, st2)"
    using s2 by (simp only:)
  have l: "calls st2 = calls st @ [ProgressStart] @ completed_calls 0 (take k ids) (committed st) @
             [ItemProgress k, Get k, Delete k]"
    using l1 l2 by simp
  have r: "raised st2 = raised st @ [ItemCommit k]"
    using r1 r2 by simp
  show ?thesis
    using loop start c1 c2 l r
    by (cases "flt Rollback")
       (simp_all add: delete_bulk_episodes_task_def call_def rollback_def without_ids_def)
qed

theorem bulk_delete_fault_at_item_witness:
  "\<exists>st'. delete_bulk_episodes_task (fault_at (ItemCommit 1) LockWaitTimeout) [11, 12, 13] bulk_store =
            (Fault LockWaitTimeout, st') \<and>
          committed st' = [demo_episode 12 1 2 None, demo_episode 13 1 3 None] \<and>
          working st' = committed st' \<and>
          calls st' = [ProgressStart, ItemProgress 0, Get 0, Delete 0, ItemCommit 0, Pace 0,
                       ItemProgress 1, Get 1, Delete 1, Rollback] \<and>
          raised st' = [ItemCommit 1]"
  using bulk_delete_fault_at_item
    [of bulk_store 1 "[11, 12, 13]" "fault_at (ItemCommit 1) LockWaitTimeout" LockWaitTimeout]
  by (simp add: bulk_store_def bulk_rows_def fault_at_def demo_episode_def)

section \<open>Characters of several bytes\<close>

lemma utf8_len_ascii: "utf8_len c = Suc 0 \<longleftrightarrow> ascii c"
  by (simp add: utf8_len_def ascii_def)

lemma utf8_len_multi: "2 \<le> utf8_len c \<Longrightarrow> \<not> ascii c"
  by (auto simp: utf8_len_def ascii_def split: if_splits)

lemma utf8_len_lead:
  "utf8_len c = 2 \<Longrightarrow> \<not> ascii c" "utf8_len c = 3 \<Longrightarrow> \<not> ascii c"
  "utf8_len c = 4 \<Longrightarrow> \<not> ascii c"
  by (simp_all add: utf8_len_multi)

lemma is_cont_not_ascii: "is_cont c \<Longrightarrow> \<not> ascii c"
  by (simp add: is_cont_def ascii_def)

lemma second_ok_cont: "second_ok l c \<Longrightarrow> is_cont c"
  by (simp add: second_ok_def)

lemma utf8_char_cases:
  assumes "utf8_char bs"
  obtains (one) c where "bs = [c]" "ascii c"
  | (two) c c1 where "bs = [c, c1]" "utf8_len c = 2" "second_ok c c1"
  | (three) c c1 c2 where "bs = [c, c1, c2]" "utf8_len c = 3" "second_ok c c1" "is_cont c2"
  | (four) c c1 c2 c3 where "bs = [c, c1, c2, c3]" "utf8_len c = 4" "second_ok c c1" "is_cont c2"
      "is_cont c3"
  using assms by (auto simp: utf8_char_def utf8_len_ascii split: list.splits)

lemma utf8_char_shape:
  "utf8_char bs \<Longrightarrow> \<exists>c t. bs = c # t \<and> length t = utf8_len c - 1"
  by (erule utf8_char_cases) (simp_all add: utf8_len_ascii [symmetric])

lemma utf8_chars_step:
  assumes "utf8_char bs" "ok bs" "utf8_chars ok r"
  shows "utf8_chars ok (bs @ r)"
proof -
  obtain c t where bs: "bs = c # t" and len: "length t = utf8_len c - 1"
    using utf8_char_shape [OF assms(1)] by blast
  show ?thesis
    using assms len by (simp add: bs)
qed

lemma utf8_chars_split:
  assumes "utf8_chars ok s" "s \<noteq> []"
  shows "\<exists>bs r. s = bs @ r \<and> bs \<noteq> [] \<and> utf8_char bs \<and> ok bs \<and> utf8_chars ok r"
proof -
  obtain c t where s: "s = c # t" using assms(2) by (cases s) auto
  let ?bs = "c # take (utf8_len c - 1) t" and ?r = "drop (utf8_len c - 1) t"
  have "s = ?bs @ ?r" by (simp add: s)
  moreover have "utf8_char ?bs" "ok ?bs" "utf8_chars ok ?r"
    using assms(1) by (simp_all add: s)
  ultimately show ?thesis by blast
qed

lemma utf8_chars_induct [consumes 1, case_names Nil Char]:
  assumes "utf8_chars ok s"
    and "P []"
    and "\<And>bs r. utf8_char bs \<Longrightarrow> ok bs \<Longrightarrow> utf8_chars ok r \<Longrightarrow> P r \<Longrightarrow> P (bs @ r)"
  shows "P s"
  using assms(1)
proof (induction s rule: length_induct)
  case (1 s)
  show ?case
  proof (cases "s = []")
    case True
    then show ?thesis using assms(2) by simp
  next
    case False
    from utf8_chars_split [OF "1.prems" False]
    obtain bs r where x: "s = bs @ r" "bs \<noteq> []" "utf8_char bs" "ok bs" "utf8_chars ok r"
      by blast
    have "length r < length s" using x(1,2) by simp
    then have "P r" using "1.IH" x(5) by blast
    then show ?thesis using assms(3) x by simp
  qed
qed

lemma utf8_chars_append:
  "utf8_chars ok a \<Longrightarrow> utf8_chars ok b \<Longrightarrow> utf8_chars ok (a @ b)"
proof (induction a rule: utf8_chars_induct)
  case Nil
  then show ?case by simp
next
  case (Char bs r)
  have "utf8_chars ok (r @ b)" using Char by simp
  with Char(1,2) have "utf8_chars ok (bs @ (r @ b))" by (rule utf8_chars_step)
  then show ?case by simp
qed

lemma utf8_chars_mono:
  "utf8_chars ok s \<Longrightarrow> (\<And>bs. ok bs \<Longrightarrow> ok' bs) \<Longrightarrow> utf8_chars ok' s"
proof (induction s rule: utf8_chars_induct)
  case Nil
  then show ?case by simp
next
  case (Char bs r)
  have "utf8_chars ok' r" using Char by simp
  with Char(1) show ?case using Char(2,5) by (intro utf8_chars_step) simp_all
qed

lemma utf8_chars_ascii:
  "\<forall>c \<in> set s. ascii c \<and> ok [c] \<Longrightarrow> utf8_chars ok s"
proof (induction s)
  case Nil
  then show ?case by simp
next
  case (Cons c s)
  have "utf8_char [c]" using Cons.prems by (simp add: utf8_char_def utf8_len_ascii)
  moreover have "ok [c]" using Cons.prems by simp
  moreover have "utf8_chars ok s" using Cons by simp
  ultimately have "utf8_chars ok ([c] @ s)" by (rule utf8_chars_step)
  then show ?case by simp
qed

lemma utf8_char_multi:
  "utf8_char bs \<Longrightarrow> 2 \<le> length bs \<Longrightarrow> b \<in> set bs \<Longrightarrow> \<not> ascii b"
  by (erule utf8_char_cases)
     (auto dest: utf8_len_lead is_cont_not_ascii second_ok_cont)

section \<open>The comment codec: generating, then parsing\<close>

lemma xml_run_Nil [simp]: "xml_run st [] = st"
  by (simp add: xml_run_def)

lemma xml_run_Cons [simp]: "xml_run st (c # s) = xml_run (xml_step st c) s"
  by (simp add: xml_run_def)

lemma xml_run_append: "xml_run st (s @ t) = xml_run (xml_run st s) t"
  by (simp add: xml_run_def)

lemmas char_class_defs = is_ws_def valid_char_def name_start_def name_char_def is_digit_def dq_def
  ascii_def

lemmas step_defs = xml_step_def add_text_def open_element_def close_element_def to_content_def
  xp_fail_def xp_unsup_def entity_char_def

lemma utf_reset: "xp_utf st = [] \<Longrightarrow> st\<lparr>xp_utf := []\<rparr> = st"
  by (cases st) simp

lemma footer_run:
  "xml_run (body evs) (CHR 0x0A # ''</i>'') =
     \<lparr>xp_status = Running, xp_mode = Content, xp_stack = [],
      xp_out = evs @ [(''i'', [], Some [CHR 0x0A, CHR '' '', CHR '' ''])], xp_acc = [],
      xp_tag = [], xp_attrs = [], xp_aname = [], xp_root_done = True, xp_rsqb = 0,
      xp_utf = []\<rparr>"
  by (simp add: body_def i_elem_def step_defs char_class_defs)

lemma attr_ascii_step:
  assumes "ascii c" "attr_char [c]" "xp_status st = Running" "xp_mode st = AVal" "xp_utf st = []"
  shows "xml_step st c = st\<lparr>xp_acc := xp_acc st @ [c]\<rparr>"
proof -
  have c: "(0x20 :: nat) \<le> of_char c" "c \<noteq> dq" "c \<noteq> CHR ''<''" "c \<noteq> CHR ''&''"
    using assms(2) by (simp_all add: attr_char_def)
  have c2: "c \<noteq> CHR 0x0D" "c \<noteq> CHR 0x09" "c \<noteq> CHR 0x0A"
    using c(1) by auto
  show ?thesis
    using assms(1,3,4,5) c c2 by (simp add: xml_step_def valid_char_def)
qed

lemma pending_step:
  assumes "xp_status st = Running" "xp_mode st = AVal \<or> xp_mode st = Content"
    and "utf8_feed (xp_utf st) c = Pending p" "xp_utf st \<noteq> [] \<or> \<not> ascii c"
  shows "xml_step st c = st\<lparr>xp_utf := p\<rparr>"
  using assms by (auto simp: xml_step_def utf_step_def)

lemma feed_first: "2 \<le> utf8_len c \<Longrightarrow> utf8_feed [] c = Pending [c]"
  by (simp add: utf8_feed_def)

lemma feed_second:
  "second_ok l c \<Longrightarrow>
     utf8_feed [l] c = (if utf8_len l = 2 then Complete [l, c] else Pending [l, c])"
  by (simp add: utf8_feed_def)

lemma feed_third:
  "is_cont c \<Longrightarrow>
     utf8_feed [l, c1] c =
       (if utf8_len l = 3 then (if nonchar [l, c1, c] then Forbidden else Complete [l, c1, c])
        else Pending [l, c1, c])"
  by (simp add: utf8_feed_def)

lemma feed_fourth: "is_cont c \<Longrightarrow> utf8_feed [l, c1, c2] c = Complete [l, c1, c2, c]"
  by (simp add: utf8_feed_def)

text \<open>The bytes read when a character of several bytes is complete.\<close>

lemma feed_multi:
  assumes "utf8_char bs" "2 \<le> length bs" "\<not> nonchar bs"
  shows "\<exists>c. utf8_feed (butlast bs) (last bs) = Complete bs \<and> bs = butlast bs @ [last bs]"
  using assms(1)
proof (cases rule: utf8_char_cases)
  case (one c)
  then show ?thesis using assms(2) by simp
next
  case (two c c1)
  then show ?thesis by (simp add: feed_second)
next
  case (three c c1 c2)
  then show ?thesis using assms(3) by (simp add: feed_third)
next
  case (four c c1 c2 c3)
  then show ?thesis by (simp add: feed_fourth)
qed

text \<open>Before the last byte of a character of several bytes, the machine only keeps the bytes.\<close>

lemma run_pending:
  assumes "utf8_char bs" "2 \<le> length bs"
    and "xp_status st = Running" "xp_mode st = AVal \<or> xp_mode st = Content" "xp_utf st = []"
  shows "xml_run st (butlast bs) = st\<lparr>xp_utf := butlast bs\<rparr>"
  using assms(1)
proof (cases rule: utf8_char_cases)
  case (one c)
  then show ?thesis using assms(2) by simp
next
  case (two c c1)
  have "xml_step st c = st\<lparr>xp_utf := [c]\<rparr>"
    using assms(3,4,5) two(2) by (intro pending_step) (simp_all add: feed_first utf8_len_lead)
  then show ?thesis using two by simp
next
  case (three c c1 c2)
  have a: "xml_step st c = st\<lparr>xp_utf := [c]\<rparr>"
    using assms(3,4,5) three(2) by (intro pending_step) (simp_all add: feed_first utf8_len_lead)
  have b: "xml_step (st\<lparr>xp_utf := [c]\<rparr>) c1 = st\<lparr>xp_utf := [c]\<rparr>\<lparr>xp_utf := [c, c1]\<rparr>"
    using assms(3,4) three(2,3) by (intro pending_step) (simp_all add: feed_second)
  show ?thesis using three a b by simp
next
  case (four c c1 c2 c3)
  have a: "xml_step st c = st\<lparr>xp_utf := [c]\<rparr>"
    using assms(3,4,5) four(2) by (intro pending_step) (simp_all add: feed_first utf8_len_lead)
  have b: "xml_step (st\<lparr>xp_utf := [c]\<rparr>) c1 = st\<lparr>xp_utf := [c]\<rparr>\<lparr>xp_utf := [c, c1]\<rparr>"
    using assms(3,4) four(2,3) by (intro pending_step) (simp_all add: feed_second)
  have c: "xml_step (st\<lparr>xp_utf := [c, c1]\<rparr>) c2 = st\<lparr>xp_utf := [c, c1]\<rparr>\<lparr>xp_utf := [c, c1, c2]\<rparr>"
    using assms(3,4) four(2,4) by (intro pending_step) (simp_all add: feed_third)
  show ?thesis using four a b c by simp
qed

lemma run_multi:
  assumes "utf8_char bs" "2 \<le> length bs" "\<not> nonchar bs"
    and "xp_status st = Running" "xp_mode st = AVal \<or> xp_mode st = Content" "xp_utf st = []"
  shows "xml_run st bs = utf_step (st\<lparr>xp_utf := butlast bs\<rparr>) (last bs)"
proof -
  have ne: "butlast bs \<noteq> []" using assms(2) by (cases bs; cases "tl bs") auto
  have "xml_run st bs = xml_run st (butlast bs @ [last bs])"
    using feed_multi [OF assms(1,2,3)] by simp
  also have "\<dots> = xml_step (st\<lparr>xp_utf := butlast bs\<rparr>) (last bs)"
    using run_pending [OF assms(1,2,4,5,6)] by (simp add: xml_run_append)
  also have "\<dots> = utf_step (st\<lparr>xp_utf := butlast bs\<rparr>) (last bs)"
    using assms(4) ne by (simp add: xml_step_def)
  finally show ?thesis .
qed

lemma run_attr_char:
  assumes "utf8_char bs" "attr_char bs" "xp_status st = Running" "xp_mode st = AVal"
    "xp_utf st = []"
  shows "xml_run st bs = st\<lparr>xp_acc := xp_acc st @ bs\<rparr>"
proof (cases "2 \<le> length bs")
  case True
  have nn: "\<not> nonchar bs"
    using assms(2) True by (cases bs; cases "tl bs") (auto simp: attr_char_def)
  have "xml_run st bs = utf_step (st\<lparr>xp_utf := butlast bs\<rparr>) (last bs)"
    using assms(1) True nn assms(3) _ assms(5) by (rule run_multi) (simp add: assms(4))
  also have "\<dots> = st\<lparr>xp_acc := xp_acc st @ bs, xp_utf := []\<rparr>"
    using feed_multi [OF assms(1) True nn] assms(4) by (auto simp: utf_step_def)
  finally show ?thesis using assms(5) by (simp add: utf_reset)
next
  case False
  then obtain c where c: "bs = [c]" "ascii c"
    using assms(1) by (auto elim!: utf8_char_cases)
  show ?thesis
    using attr_ascii_step [OF c(2) assms(2) [unfolded c(1)] assms(3,4,5)] c(1) by simp
qed

lemma run_attr:
  "attr_plain P \<Longrightarrow> xp_status st = Running \<Longrightarrow> xp_mode st = AVal \<Longrightarrow> xp_utf st = [] \<Longrightarrow>
     xml_run st P = st\<lparr>xp_acc := xp_acc st @ P\<rparr>"
  unfolding attr_plain_def
proof (induction P arbitrary: st rule: utf8_chars_induct)
  case Nil
  then show ?case by simp
next
  case (Char bs r)
  let ?st1 = "st\<lparr>xp_acc := xp_acc st @ bs\<rparr>"
  have a: "xml_run st bs = ?st1"
    using Char.hyps(1,2) Char.prems by (rule run_attr_char)
  have "xml_run ?st1 r = ?st1\<lparr>xp_acc := xp_acc ?st1 @ r\<rparr>"
    using Char.prems by (intro Char.IH) simp_all
  then show ?case using a by (simp add: xml_run_append)
qed

lemma app_text_app: "app_text (app_text t a) b = app_text t (a @ b)"
  by (auto simp: app_text_def split: option.splits)

lemma add_chars:
  "xp_stack st = e # rest \<Longrightarrow> \<not> oe_text_done e \<Longrightarrow>
     foldl (\<lambda>s b. add_text b s) st bs =
       st\<lparr>xp_stack := e\<lparr>oe_text := app_text (oe_text e) bs\<rparr> # rest\<rparr>"
proof (induction bs arbitrary: st e)
  case Nil
  then show ?case by (cases st) (simp add: app_text_def)
next
  case (Cons b bs)
  let ?e1 = "e\<lparr>oe_text := app_text (oe_text e) [b]\<rparr>"
  let ?st1 = "st\<lparr>xp_stack := ?e1 # rest\<rparr>"
  have a: "add_text b st = ?st1"
    using Cons.prems by (simp add: add_text_def app_text_def)
  have "foldl (\<lambda>s b. add_text b s) ?st1 bs =
          ?st1\<lparr>xp_stack := ?e1\<lparr>oe_text := app_text (oe_text ?e1) bs\<rparr> # rest\<rparr>"
    using Cons.prems by (intro Cons.IH) simp_all
  then show ?case using a by (simp add: app_text_app)
qed

lemma run_escaped_char:
  assumes "ascii c" "text_char [c]" "content_ready st" "xp_stack st = e # rest"
    "\<not> oe_text_done e"
  shows "\<exists>n. xml_run st (xml_escape_char c) =
           st\<lparr>xp_stack := e\<lparr>oe_text := app_text (oe_text e) [c]\<rparr> # rest, xp_rsqb := n\<rparr>"
proof -
  have v: "valid_char c" "c \<noteq> CHR 0x0D" using assms(2) by (simp_all add: text_char_def)
  consider "c = CHR ''&''" | "c = CHR ''<''" | "c = CHR ''>''" | "c = CHR '']''"
    | "c \<noteq> CHR ''&''" "c \<noteq> CHR ''<''" "c \<noteq> CHR ''>''" "c \<noteq> CHR '']''" by blast
  then show ?thesis
  proof cases
    case 1
    then have "xml_run st (xml_escape_char c) =
        st\<lparr>xp_stack := e\<lparr>oe_text := app_text (oe_text e) [c]\<rparr> # rest, xp_rsqb := 0\<rparr>"
      using assms
      by (simp add: xml_escape_char_def content_ready_def step_defs char_class_defs app_text_def)
    then show ?thesis by blast
  next
    case 2
    then have "xml_run st (xml_escape_char c) =
        st\<lparr>xp_stack := e\<lparr>oe_text := app_text (oe_text e) [c]\<rparr> # rest, xp_rsqb := 0\<rparr>"
      using assms
      by (simp add: xml_escape_char_def content_ready_def step_defs char_class_defs app_text_def)
    then show ?thesis by blast
  next
    case 3
    then have "xml_run st (xml_escape_char c) =
        st\<lparr>xp_stack := e\<lparr>oe_text := app_text (oe_text e) [c]\<rparr> # rest, xp_rsqb := 0\<rparr>"
      using assms
      by (simp add: xml_escape_char_def content_ready_def step_defs char_class_defs app_text_def)
    then show ?thesis by blast
  next
    case 4
    then have "xml_run st (xml_escape_char c) =
        st\<lparr>xp_stack := e\<lparr>oe_text := app_text (oe_text e) [c]\<rparr> # rest,
           xp_rsqb := Suc (xp_rsqb st)\<rparr>"
      using assms
      by (simp add: xml_escape_char_def content_ready_def step_defs char_class_defs app_text_def)
    then show ?thesis by blast
  next
    case 5
    then have "xml_run st (xml_escape_char c) =
        st\<lparr>xp_stack := e\<lparr>oe_text := app_text (oe_text e) [c]\<rparr> # rest, xp_rsqb := 0\<rparr>"
      using assms v
      by (simp add: xml_escape_char_def content_ready_def xml_step_def add_text_def app_text_def)
    then show ?thesis by blast
  qed
qed

lemma escape_not_ascii: "\<not> ascii b \<Longrightarrow> xml_escape_char b = [b]"
  by (auto simp: xml_escape_char_def ascii_def)

lemma escape_multi: "\<forall>b \<in> set bs. \<not> ascii b \<Longrightarrow> xml_escape bs = bs"
  by (induction bs) (simp_all add: xml_escape_def escape_not_ascii)

lemma xml_escape_append: "xml_escape (a @ b) = xml_escape a @ xml_escape b"
  by (simp add: xml_escape_def)

lemma run_text_char:
  assumes "utf8_char bs" "text_char bs" "content_ready st" "xp_stack st = e # rest"
    "\<not> oe_text_done e"
  shows "\<exists>n. xml_run st (xml_escape bs) =
           st\<lparr>xp_stack := e\<lparr>oe_text := app_text (oe_text e) bs\<rparr> # rest, xp_rsqb := n\<rparr>"
proof (cases "2 \<le> length bs")
  case True
  have nn: "\<not> nonchar bs"
    using assms(2) True by (cases bs; cases "tl bs") (auto simp: text_char_def)
  have r: "xp_status st = Running" "xp_mode st = Content" "xp_utf st = []"
    using assms(3) by (simp_all add: content_ready_def)
  have esc: "xml_escape bs = bs"
    using utf8_char_multi [OF assms(1) True] by (intro escape_multi) blast
  let ?st0 = "st\<lparr>xp_utf := butlast bs\<rparr>\<lparr>xp_rsqb := 0, xp_utf := []\<rparr>"
  have "xml_run st bs = utf_step (st\<lparr>xp_utf := butlast bs\<rparr>) (last bs)"
    using assms(1) True nn r(1) _ r(3) by (rule run_multi) (simp add: r(2))
  also have "\<dots> = foldl (\<lambda>s b. add_text b s) ?st0 bs"
    using feed_multi [OF assms(1) True nn] r(2) by (auto simp: utf_step_def)
  also have "\<dots> = ?st0\<lparr>xp_stack := e\<lparr>oe_text := app_text (oe_text e) bs\<rparr> # rest\<rparr>"
    using assms(4,5) by (intro add_chars) simp_all
  also have "\<dots> = st\<lparr>xp_stack := e\<lparr>oe_text := app_text (oe_text e) bs\<rparr> # rest, xp_rsqb := 0\<rparr>"
    using r(3) by (cases st) simp
  finally show ?thesis using esc by auto
next
  case False
  then obtain c where c: "bs = [c]" "ascii c"
    using assms(1) by (auto elim!: utf8_char_cases)
  have "xml_escape bs = xml_escape_char c" by (simp add: c(1) xml_escape_def)
  then show ?thesis
    using run_escaped_char [OF c(2) assms(2) [unfolded c(1)] assms(3,4,5)] c(1) by simp
qed

lemma run_text:
  "text_plain T \<Longrightarrow> content_ready st \<Longrightarrow> xp_stack st = e # rest \<Longrightarrow> \<not> oe_text_done e \<Longrightarrow>
     \<exists>n. xml_run st (xml_escape T) =
       st\<lparr>xp_stack := e\<lparr>oe_text := app_text (oe_text e) T\<rparr> # rest, xp_rsqb := n\<rparr>"
  unfolding text_plain_def
proof (induction T arbitrary: st e rule: utf8_chars_induct)
  case Nil
  have "st = st\<lparr>xp_stack := e\<lparr>oe_text := app_text (oe_text e) []\<rparr> # rest, xp_rsqb := xp_rsqb st\<rparr>"
    using Nil by (cases st) (simp add: app_text_def)
  then have "xml_run st (xml_escape []) =
      st\<lparr>xp_stack := e\<lparr>oe_text := app_text (oe_text e) []\<rparr> # rest, xp_rsqb := xp_rsqb st\<rparr>"
    by (simp add: xml_escape_def)
  then show ?case by (rule exI)
next
  case (Char bs r)
  let ?e1 = "e\<lparr>oe_text := app_text (oe_text e) bs\<rparr>"
  from run_text_char [OF Char.hyps(1,2) Char.prems]
  obtain n1 where s1: "xml_run st (xml_escape bs) = st\<lparr>xp_stack := ?e1 # rest, xp_rsqb := n1\<rparr>"
    by blast
  let ?st1 = "st\<lparr>xp_stack := ?e1 # rest, xp_rsqb := n1\<rparr>"
  have "content_ready ?st1" using Char.prems(1) by (simp add: content_ready_def)
  moreover have "xp_stack ?st1 = ?e1 # rest" by simp
  moreover have "\<not> oe_text_done ?e1" using Char.prems(3) by simp
  ultimately obtain n2 where s2: "xml_run ?st1 (xml_escape r) =
      ?st1\<lparr>xp_stack := ?e1\<lparr>oe_text := app_text (oe_text ?e1) r\<rparr> # rest, xp_rsqb := n2\<rparr>"
    using Char.IH by blast
  have "xml_run st (xml_escape (bs @ r)) =
      st\<lparr>xp_stack := e\<lparr>oe_text := app_text (oe_text e) (bs @ r)\<rparr> # rest, xp_rsqb := n2\<rparr>"
    using s1 s2 by (simp add: xml_escape_append xml_run_append app_text_app)
  then show ?case by blast
qed

lemma xml_entry_parts:
  "CHR 0x0A # xml_entry c =
     (CHR 0x0A # ''  <d p='' @ [dq]) @ emitted_p c @ [dq, CHR ''>''] @
     xml_escape (comment_text c) @ ''</d>''"
  by (simp add: xml_entry_def comment_text_def)

lemma entry_run:
  assumes "attr_plain (emitted_p c)" "text_plain (comment_text c)"
  shows "xml_run (body evs) (CHR 0x0A # xml_entry c) = body (evs @ [d_event c])"
proof -
  let ?P = "emitted_p c" and ?T = "comment_text c"
  let ?a = "(body evs)\<lparr>xp_mode := AVal, xp_acc := [], xp_tag := ''d'', xp_attrs := [],
                          xp_aname := ''p''\<rparr>"
  let ?d = "\<lparr>oe_tag = ''d'', oe_attrs = [(''p'', ?P)], oe_text = None, oe_text_done = False\<rparr>"
  let ?c = "(body evs)\<lparr>xp_stack := [?d, i_elem]\<rparr>"
  have a: "xml_run (body evs) (CHR 0x0A # ''  <d p='' @ [dq]) = ?a"
    by (simp add: body_def i_elem_def step_defs char_class_defs)
  have b: "xml_run ?a ?P = ?a\<lparr>xp_acc := xp_acc ?a @ ?P\<rparr>"
    using assms(1) by (rule run_attr) (simp_all add: body_def)
  have c: "xml_run (?a\<lparr>xp_acc := xp_acc ?a @ ?P\<rparr>) [dq, CHR ''>''] = ?c"
    by (simp add: body_def i_elem_def step_defs char_class_defs)
  obtain n where d: "xml_run ?c (xml_escape ?T) =
             ?c\<lparr>xp_stack := ?d\<lparr>oe_text := app_text (oe_text ?d) ?T\<rparr> # [i_elem], xp_rsqb := n\<rparr>"
    using run_text [OF assms(2), of ?c ?d "[i_elem]"] by (auto simp: body_def content_ready_def)
  have e: "xml_run (?c\<lparr>xp_stack := ?d\<lparr>oe_text := app_text (oe_text ?d) ?T\<rparr> # [i_elem],
                        xp_rsqb := n\<rparr>) ''</d>'' =
             body (evs @ [d_event c])"
    by (simp add: body_def d_event_def step_defs char_class_defs)
  let ?A = "CHR 0x0A # ''  <d p='' @ [dq]" and ?C = "[dq, CHR ''>'']"
    and ?E = "''</d>''" and ?X = "xml_escape (comment_text c)"
  have "xml_run (body evs) (CHR 0x0A # xml_entry c) =
          xml_run (body evs) (?A @ (?P @ (?C @ (?X @ ?E))))"
    by (simp only: xml_entry_parts append_assoc)
  also have "\<dots> = xml_run (xml_run (body evs) ?A) (?P @ (?C @ (?X @ ?E)))"
    by (rule xml_run_append)
  also have "\<dots> = xml_run (xml_run ?a ?P) (?C @ (?X @ ?E))"
    by (simp only: a xml_run_append)
  also have "\<dots> = xml_run (xml_run (?a\<lparr>xp_acc := xp_acc ?a @ ?P\<rparr>) ?C) (?X @ ?E)"
    by (simp only: b xml_run_append)
  also have "\<dots> = xml_run (xml_run ?c ?X) ?E"
    by (simp only: c xml_run_append)
  also have "\<dots> = body (evs @ [d_event c])"
    by (simp only: d e)
  finally show ?thesis .
qed

lemma entries_run:
  "\<forall>c \<in> set cs. attr_plain (emitted_p c) \<and> text_plain (comment_text c) \<Longrightarrow>
     xml_run (body evs) (concat (map (\<lambda>c. CHR 0x0A # xml_entry c) cs)) =
       body (evs @ map d_event cs)"
proof (induction cs arbitrary: evs)
  case Nil
  then show ?case by simp
next
  case (Cons c cs)
  have "xml_run (body evs) (CHR 0x0A # xml_entry c) = body (evs @ [d_event c])"
    using Cons.prems by (intro entry_run) simp_all
  moreover have "xml_run (body (evs @ [d_event c])) (concat (map (\<lambda>c. CHR 0x0A # xml_entry c) cs)) =
       body ((evs @ [d_event c]) @ map d_event cs)"
    using Cons.prems by (intro Cons.IH) simp
  ultimately show ?case
    using xml_run_append [of "body evs" "CHR 0x0A # xml_entry c"
        "concat (map (\<lambda>c. CHR 0x0A # xml_entry c) cs)"]
    by simp
qed

lemma join_Cons: "join sep (x # xs) = x @ concat (map (\<lambda>y. sep @ y) xs)"
  by (induction xs arbitrary: x) simp_all

lemma join_append:
  "xs \<noteq> [] \<Longrightarrow> join sep (xs @ ys) = join sep xs @ concat (map (\<lambda>y. sep @ y) ys)"
  by (cases xs) (simp_all add: join_Cons)

lemma generate_parts:
  "generate_dandan_xml cs =
     join [CHR 0x0A] (xml_header (length cs)) @
     concat (map (\<lambda>c. CHR 0x0A # xml_entry c) cs) @ (CHR 0x0A # ''</i>'')"
proof -
  have "xml_header (length cs) \<noteq> []" by (simp add: xml_header_def)
  then show ?thesis
    by (simp add: generate_dandan_xml_def join_append map_concat comp_def)
qed

lemma digit_not_special:
  "is_digit c \<Longrightarrow>
     c \<noteq> CHR ''&'' \<and> c \<noteq> CHR ''<'' \<and> c \<noteq> CHR ''>'' \<and> valid_char c \<and> c \<noteq> CHR 0x0D \<and> ascii c"
proof -
  assume "is_digit c"
  then have "c = CHR ''0'' \<or> c = CHR ''1'' \<or> c = CHR ''2'' \<or> c = CHR ''3'' \<or> c = CHR ''4'' \<or>
             c = CHR ''5'' \<or> c = CHR ''6'' \<or> c = CHR ''7'' \<or> c = CHR ''8'' \<or> c = CHR ''9''"
    by (simp add: is_digit_def)
  then show ?thesis
    by (elim disjE) (simp_all add: valid_char_def ascii_def)
qed

lemma digit_escape_char: "is_digit c \<Longrightarrow> xml_escape_char c = [c]"
  using digit_not_special [of c] by (simp add: xml_escape_char_def)

lemma digits_escape: "list_all is_digit s \<Longrightarrow> xml_escape s = s"
  by (induction s) (simp_all add: xml_escape_def digit_escape_char)

lemma digits_plain: "list_all is_digit s \<Longrightarrow> text_plain s"
  unfolding text_plain_def
  using digit_not_special by (intro utf8_chars_ascii) (simp add: list_all_iff text_char_def)

lemma str_nat_nonempty: "str_nat n \<noteq> []"
  by (subst str_nat.simps) simp

lemma run_decl: "xml_run xml_start decl_line = to_content xml_start"
  by (simp add: decl_line_def decl_rest_def xml_start_def step_defs char_class_defs)

lemma run_root:
  "xml_run (to_content xml_start) (CHR 0x0A # ''<i>'' @ CHR 0x0A # ''  <chatserver>danmu</chatserver>'') =
     body [(''chatserver'', [], Some ''danmu'')]"
  by (simp add: xml_start_def body_def i_elem_def step_defs char_class_defs)

lemma run_chatid:
  "xml_run (body evs) (CHR 0x0A # ''  <chatid>0</chatid>'') = body (evs @ [(''chatid'', [], Some ''0'')])"
  by (simp add: body_def i_elem_def step_defs char_class_defs)

lemma run_mission:
  "xml_run (body evs) (CHR 0x0A # ''  <mission>0</mission>'') = body (evs @ [(''mission'', [], Some ''0'')])"
  by (simp add: body_def i_elem_def step_defs char_class_defs)

lemma run_source:
  "xml_run (body evs) (CHR 0x0A # ''  <source>kuyun</source>'') = body (evs @ [(''source'', [], Some ''kuyun'')])"
  by (simp add: body_def i_elem_def step_defs char_class_defs)

lemma run_maxlimit:
  assumes "list_all is_digit T" "T \<noteq> []"
  shows "xml_run (xml_run (xml_run (body evs) (CHR 0x0A # ''  <maxlimit>'')) T) ''</maxlimit>'' =
           body (evs @ [(''maxlimit'', [], Some T)])"
proof -
  let ?m = "\<lparr>oe_tag = ''maxlimit'', oe_attrs = [], oe_text = None, oe_text_done = False\<rparr>"
  let ?s1 = "(body evs)\<lparr>xp_stack := [?m, i_elem]\<rparr>"
  have a: "xml_run (body evs) (CHR 0x0A # ''  <maxlimit>'') = ?s1"
    by (simp add: body_def i_elem_def step_defs char_class_defs)
  obtain n where "xml_run ?s1 (xml_escape T) =
      ?s1\<lparr>xp_stack := ?m\<lparr>oe_text := app_text (oe_text ?m) T\<rparr> # [i_elem], xp_rsqb := n\<rparr>"
    using run_text [OF digits_plain [OF assms(1)], of ?s1 ?m "[i_elem]"]
    by (auto simp: body_def content_ready_def)
  then have b: "xml_run ?s1 T =
      ?s1\<lparr>xp_stack := ?m\<lparr>oe_text := app_text (oe_text ?m) T\<rparr> # [i_elem], xp_rsqb := n\<rparr>"
    using digits_escape [OF assms(1)] by simp
  have c: "xml_run (?s1\<lparr>xp_stack := ?m\<lparr>oe_text := app_text (oe_text ?m) T\<rparr> # [i_elem],
                        xp_rsqb := n\<rparr>) ''</maxlimit>'' =
             body (evs @ [(''maxlimit'', [], Some T)])"
    using assms(2) by (simp add: body_def app_text_def step_defs char_class_defs)
  show ?thesis
    by (simp only: a b c)
qed

lemma header_parts:
  "join [CHR 0x0A] (xml_header n) =
     decl_line @ (CHR 0x0A # ''<i>'' @ CHR 0x0A # ''  <chatserver>danmu</chatserver>'') @
     (CHR 0x0A # ''  <chatid>0</chatid>'') @ (CHR 0x0A # ''  <mission>0</mission>'') @
     ((CHR 0x0A # ''  <maxlimit>'') @ py_str (int n) @ ''</maxlimit>'') @
     (CHR 0x0A # ''  <source>kuyun</source>'')"
  by (simp add: xml_header_def decl_line_def decl_rest_def)

lemma header_run: "xml_run xml_start (join [CHR 0x0A] (xml_header n)) = body (header_events n)"
proof -
  have dig: "list_all is_digit (py_str (int n))" by (simp add: py_str_def str_nat_digits)
  have ne: "py_str (int n) \<noteq> []" by (simp add: py_str_def str_nat_nonempty)
  have "xml_run xml_start (join [CHR 0x0A] (xml_header n)) =
          body (((([(''chatserver'', [], Some ''danmu'')] @ [(''chatid'', [], Some ''0'')]) @
                 [(''mission'', [], Some ''0'')]) @ [(''maxlimit'', [], Some (py_str (int n)))]) @
                [(''source'', [], Some ''kuyun'')])"
    by (simp only: header_parts xml_run_append run_decl run_root run_chatid run_mission
      run_maxlimit [OF dig ne] run_source)
  then show ?thesis
    by (simp add: header_events_def)
qed

text \<open>The generated document is the encoding of a string.\<close>

lemma utf8_valid_append: "utf8_valid a \<Longrightarrow> utf8_valid b \<Longrightarrow> utf8_valid (a @ b)"
  unfolding utf8_valid_def by (rule utf8_chars_append)

lemma utf8_valid_ascii: "\<forall>c \<in> set s. ascii c \<Longrightarrow> utf8_valid s"
  unfolding utf8_valid_def by (rule utf8_chars_ascii) simp

lemma utf8_valid_plain: "attr_plain s \<Longrightarrow> utf8_valid s" "text_plain s \<Longrightarrow> utf8_valid s"
  unfolding utf8_valid_def attr_plain_def text_plain_def
  by (erule utf8_chars_mono, simp)+

lemma escape_char_ascii: "ascii c \<Longrightarrow> \<forall>x \<in> set (xml_escape_char c). ascii x"
  by (simp add: xml_escape_char_def ascii_def)

lemma utf8_valid_escape: "utf8_valid T \<Longrightarrow> utf8_valid (xml_escape T)"
  unfolding utf8_valid_def
proof (induction T rule: utf8_chars_induct)
  case Nil
  then show ?case by (simp add: xml_escape_def)
next
  case (Char bs r)
  have "utf8_chars (\<lambda>bs. True) (xml_escape bs)"
  proof (cases "2 \<le> length bs")
    case True
    have "xml_escape bs = bs"
      using utf8_char_multi [OF Char.hyps(1) True] by (intro escape_multi) blast
    moreover have "utf8_chars (\<lambda>bs. True) (bs @ [])"
      using Char.hyps(1) by (intro utf8_chars_step) simp_all
    ultimately show ?thesis by simp
  next
    case False
    then obtain c where c: "bs = [c]" "ascii c"
      using Char.hyps(1) by (auto elim!: utf8_char_cases)
    have "xml_escape bs = xml_escape_char c" by (simp add: c(1) xml_escape_def)
    then show ?thesis
      using escape_char_ascii [OF c(2)] by (simp add: utf8_chars_ascii)
  qed
  then show ?case
    using Char.IH by (simp add: xml_escape_append utf8_chars_append)
qed

lemma header_valid: "utf8_valid (join [CHR 0x0A] (xml_header n))"
proof -
  have "\<forall>c \<in> set (py_str (int n)). ascii c"
    using str_nat_digits [of "int n"] digit_not_special
    by (simp add: py_str_def list_all_iff)
  then have "\<forall>c \<in> set (join [CHR 0x0A] (xml_header n)). ascii c"
    unfolding header_parts decl_line_def decl_rest_def
    by (simp add: ascii_def dq_def ball_Un)
  then show ?thesis by (rule utf8_valid_ascii)
qed

lemma entry_valid:
  assumes "attr_plain (emitted_p c)" "text_plain (comment_text c)"
  shows "utf8_valid (CHR 0x0A # xml_entry c)"
proof -
  have a: "utf8_valid (CHR 0x0A # ''  <d p='' @ [dq])" "utf8_valid [dq, CHR ''>'']"
    "utf8_valid ''</d>''"
    by (rule utf8_valid_ascii, simp add: ascii_def dq_def)+
  have b: "utf8_valid (emitted_p c)" using assms(1) by (rule utf8_valid_plain)
  have c: "utf8_valid (xml_escape (comment_text c))"
    using assms(2) by (intro utf8_valid_escape utf8_valid_plain)
  show ?thesis
    unfolding xml_entry_parts using a b c by (intro utf8_valid_append)
qed

lemma entries_valid:
  "\<forall>c \<in> set cs. attr_plain (emitted_p c) \<and> text_plain (comment_text c) \<Longrightarrow>
     utf8_valid (concat (map (\<lambda>c. CHR 0x0A # xml_entry c) cs))"
proof (induction cs)
  case Nil
  then show ?case by (simp add: utf8_valid_def)
next
  case (Cons c cs)
  have "utf8_valid (CHR 0x0A # xml_entry c)" using Cons.prems by (intro entry_valid) simp_all
  moreover have "utf8_valid (concat (map (\<lambda>c. CHR 0x0A # xml_entry c) cs))"
    using Cons by simp
  ultimately have "utf8_valid ((CHR 0x0A # xml_entry c) @ concat (map (\<lambda>c. CHR 0x0A # xml_entry c) cs))"
    by (rule utf8_valid_append)
  then show ?case by simp
qed

lemma document_valid:
  assumes "\<forall>c \<in> set cs. attr_plain (emitted_p c) \<and> text_plain (comment_text c)"
  shows "utf8_valid (generate_dandan_xml cs)"
proof -
  have "utf8_valid (CHR 0x0A # ''</i>'')"
    by (rule utf8_valid_ascii) (simp add: ascii_def)
  then show ?thesis
    unfolding generate_parts
    using header_valid entries_valid [OF assms] by (intro utf8_valid_append)
qed

lemma document_run:
  assumes "\<forall>c \<in> set cs. attr_plain (emitted_p c) \<and> text_plain (comment_text c)"
  shows "iterparse (generate_dandan_xml cs) =
           Events (header_events (length cs) @ map d_event cs @ [i_event])"
proof -
  have "xml_run xml_start (generate_dandan_xml cs) =
          xml_run (xml_run (xml_run xml_start (join [CHR 0x0A] (xml_header (length cs))))
                     (concat (map (\<lambda>c. CHR 0x0A # xml_entry c) cs)))
            (CHR 0x0A # ''</i>'')"
    by (simp only: generate_parts xml_run_append)
  also have "\<dots> = xml_run (body (header_events (length cs) @ map d_event cs)) (CHR 0x0A # ''</i>'')"
    by (simp only: header_run entries_run [OF assms])
  finally have "xml_run xml_start (generate_dandan_xml cs) =
      \<lparr>xp_status = Running, xp_mode = Content, xp_stack = [],
       xp_out = (header_events (length cs) @ map d_event cs) @ [i_event], xp_acc = [],
       xp_tag = [], xp_attrs = [], xp_aname = [], xp_root_done = True, xp_rsqb = 0,
       xp_utf = []\<rparr>"
    by (simp only: footer_run i_event_def)
  then show ?thesis
    using document_valid [OF assms] by (simp add: iterparse_def)
qed

lemma header_no_comments: "concat (map comment_of_event (header_events n)) = []"
  by (simp add: header_events_def comment_of_event_def)

lemma i_no_comment: "comment_of_event i_event = []"
  by (simp add: i_event_def comment_of_event_def)

lemma parse_generate:
  assumes "\<forall>c \<in> set cs. attr_plain (emitted_p c) \<and> text_plain (comment_text c)"
  shows "parse_xml_content (generate_dandan_xml cs) =
           Some (concat (map (\<lambda>c. comment_of_event (d_event c)) cs))"
  by (simp add: parse_xml_content_def document_run [OF assms] header_no_comments i_no_comment
      map_concat comp_def)

lemma split_on_nonempty: "split_on c s \<noteq> []"
  by (induction s) (auto split: list.splits)

lemma split_on_no_sep: "x \<in> set (split_on c s) \<Longrightarrow> c \<notin> set x"
proof (induction s arbitrary: x)
  case Nil
  then show ?case by simp
next
  case (Cons a s)
  show ?case
  proof (cases "a = c")
    case True
    then show ?thesis using Cons by auto
  next
    case False
    obtain y ys where y: "split_on c s = y # ys"
      using split_on_nonempty [of c s] by (cases "split_on c s") auto
    then have "x = a # y \<or> x \<in> set ys" using Cons.prems False by simp
    then show ?thesis
    proof
      assume "x = a # y"
      moreover have "c \<notin> set y" using Cons.IH [of y] y by simp
      ultimately show ?thesis using False by simp
    next
      assume "x \<in> set ys"
      then show ?thesis using Cons.IH [of x] y by simp
    qed
  qed
qed

lemma split_on_chars: "x \<in> set (split_on c s) \<Longrightarrow> set x \<subseteq> set s"
proof (induction s arbitrary: x)
  case Nil
  then show ?case by simp
next
  case (Cons a s)
  show ?case
  proof (cases "a = c")
    case True
    then show ?thesis using Cons by auto
  next
    case False
    obtain y ys where y: "split_on c s = y # ys"
      using split_on_nonempty [of c s] by (cases "split_on c s") auto
    then have "x = a # y \<or> x \<in> set ys" using Cons.prems False by simp
    then show ?thesis
    proof
      assume "x = a # y"
      moreover have "set y \<subseteq> set s" using Cons.IH [of y] y by simp
      ultimately show ?thesis by auto
    next
      assume "x \<in> set ys"
      then have "set x \<subseteq> set s" using Cons.IH [of x] y by simp
      then show ?thesis by auto
    qed
  qed
qed

lemma split_on_plain: "c \<notin> set a \<Longrightarrow> split_on c a = [a]"
  by (induction a) auto

lemma split_on_append_sep:
  "c \<notin> set a \<Longrightarrow> split_on c (a @ c # rest) = a # split_on c rest"
  by (induction a) auto

lemma split_on_join:
  "xs \<noteq> [] \<Longrightarrow> \<forall>x \<in> set xs. c \<notin> set x \<Longrightarrow> split_on c (join [c] xs) = xs"
proof (induction "[c]" xs rule: join.induct)
  case 1
  then show ?case by simp
next
  case (2 x)
  then show ?case by (simp add: split_on_plain)
next
  case (3 x y zs)
  have "split_on c (x @ c # join [c] (y # zs)) = x # split_on c (join [c] (y # zs))"
    using 3(3) by (intro split_on_append_sep) simp
  then show ?case using 3 by simp
qed

lemma join_chars: "set (join sep xs) \<subseteq> set sep \<union> \<Union> (set ` set xs)"
  by (induction sep xs rule: join.induct) auto

lemma core_parts_count_le: "core_parts_count xs \<le> length xs"
  by (induction xs) auto

lemma take_four: "4 \<le> length xs \<Longrightarrow> take 4 xs = [xs ! 0, xs ! 1, xs ! 2, xs ! 3]"
proof -
  assume "4 \<le> length xs"
  then obtain a b c d rest where "xs = a # b # c # d # rest"
    by (cases xs; cases "tl xs"; cases "tl (tl xs)"; cases "tl (tl (tl xs))") auto
  then show ?thesis by simp
qed

lemma insert_size_parts:
  assumes "3 \<le> length xs"
  shows "take 2 xs @ [s] @ drop 2 xs = xs ! 0 # xs ! 1 # s # xs ! 2 # drop 3 xs"
proof -
  obtain a b c rest where "xs = a # b # c # rest"
    using assms by (cases xs; cases "tl xs"; cases "tl (tl xs)") auto
  then show ?thesis by simp
qed

lemma emitted_p_cases:
  "emitted_p c =
     (if core_parts_count (split_on (CHR '','') (given_p c)) = 3
      then join '','' (take 2 (split_on (CHR '','') (given_p c)) @ [''25''] @
                       drop 2 (split_on (CHR '','') (given_p c)))
      else given_p c)"
  by (simp add: emitted_p_def given_p_def Let_def)

lemma emitted_fields: "core_fields (emitted_p c) = expected_fields c"
proof (cases "core_parts_count (split_on (CHR '','') (given_p c)) = 3")
  case True
  let ?parts = "split_on (CHR '','') (given_p c)"
  let ?new = "take 2 ?parts @ [''25''] @ drop 2 ?parts"
  have len: "3 \<le> length ?parts"
    using True core_parts_count_le [of ?parts] by simp
  have new: "?new = ?parts ! 0 # ?parts ! 1 # ''25'' # ?parts ! 2 # drop 3 ?parts"
    using len by (rule insert_size_parts)
  have "\<forall>x \<in> set ?new. CHR '','' \<notin> set x"
  proof
    fix x assume "x \<in> set ?new"
    then have "x = ''25'' \<or> x \<in> set ?parts" by (auto dest: in_set_takeD in_set_dropD)
    then show "CHR '','' \<notin> set x" by (auto dest: split_on_no_sep)
  qed
  then have "split_on (CHR '','') (join '','' ?new) = ?new"
    by (intro split_on_join) simp_all
  then show ?thesis
    using True new by (simp add: core_fields_def expected_fields_def emitted_p_cases Let_def)
next
  case False
  then show ?thesis
    by (simp add: core_fields_def expected_fields_def emitted_p_cases Let_def)
qed

lemma attr_plain_join:
  "attr_plain sep \<Longrightarrow> \<forall>x \<in> set xs. attr_plain x \<Longrightarrow> attr_plain (join sep xs)"
  unfolding attr_plain_def
  by (induction sep xs rule: join.induct) (simp_all add: utf8_chars_append)

lemma split_on_prefix:
  "c \<notin> set bs \<Longrightarrow> split_on c (bs @ r) = (bs @ hd (split_on c r)) # tl (split_on c r)"
proof (induction bs)
  case Nil
  then show ?case using split_on_nonempty [of c r] by simp
next
  case (Cons b bs)
  then show ?case by auto
qed

lemma utf8_chars_split_on:
  assumes "utf8_chars ok s" "ascii c"
  shows "\<forall>x \<in> set (split_on c s). utf8_chars ok x"
  using assms(1)
proof (induction s rule: utf8_chars_induct)
  case Nil
  then show ?case by simp
next
  case (Char bs r)
  obtain y ys where y: "split_on c r = y # ys"
    using split_on_nonempty [of c r] by (cases "split_on c r") auto
  show ?case
  proof (cases "c \<in> set bs")
    case True
    have "\<not> 2 \<le> length bs" using utf8_char_multi [OF Char.hyps(1) _ True] assms(2) by blast
    then obtain b where "bs = [b]" using Char.hyps(1) by (auto elim!: utf8_char_cases)
    then have "bs = [c]" using True by simp
    then show ?thesis using Char.IH by simp
  next
    case False
    have "split_on c (bs @ r) = (bs @ y) # ys"
      using split_on_prefix [OF False, of r] y by simp
    moreover have "utf8_chars ok (bs @ y)"
      using Char.hyps(1,2) Char.IH y by (intro utf8_chars_step) simp_all
    ultimately show ?thesis using Char.IH y by simp
  qed
qed

lemma attr_plain_split: "attr_plain s \<Longrightarrow> x \<in> set (split_on (CHR '','') s) \<Longrightarrow> attr_plain x"
  unfolding attr_plain_def
  using utf8_chars_split_on [of attr_char s "CHR '',''"] by (simp add: ascii_def)

lemma attr_plain_literal: "attr_plain ''25''" "attr_plain '',''"
  by (simp_all add: attr_plain_def utf8_char_def utf8_len_def attr_char_def dq_def)

lemma emitted_plain: "attr_plain (given_p c) \<Longrightarrow> attr_plain (emitted_p c)"
proof -
  assume p: "attr_plain (given_p c)"
  let ?parts = "split_on (CHR '','') (given_p c)"
  have "\<forall>x \<in> set (take 2 ?parts @ [''25''] @ drop 2 ?parts). attr_plain x"
  proof
    fix x assume "x \<in> set (take 2 ?parts @ [''25''] @ drop 2 ?parts)"
    then have "x = ''25'' \<or> x \<in> set ?parts" by (auto dest: in_set_takeD in_set_dropD)
    then show "attr_plain x"
    proof
      assume "x = ''25''"
      then show ?thesis by (simp add: attr_plain_literal)
    next
      assume "x \<in> set ?parts"
      with p show ?thesis by (rule attr_plain_split)
    qed
  qed
  then have "attr_plain (join '','' (take 2 ?parts @ [''25''] @ drop 2 ?parts))"
    by (intro attr_plain_join attr_plain_literal)
  then show ?thesis using p by (simp add: emitted_p_cases)
qed

lemma parsed_fields:
  "core_fields
     (if 4 \<le> length (split_on (CHR '','') P)
      then split_on (CHR '','') P ! 0 @ '','' @ split_on (CHR '','') P ! 1 @ '','' @
           split_on (CHR '','') P ! 2 @ '','' @ split_on (CHR '','') P ! 3 @ '','' @ custom_tag
      else P) = core_fields P"
proof (cases "4 \<le> length (split_on (CHR '','') P)")
  case True
  let ?q = "split_on (CHR '','') P"
  have q: "CHR '','' \<notin> set (?q ! 0)" "CHR '','' \<notin> set (?q ! 1)" "CHR '','' \<notin> set (?q ! 2)"
    "CHR '','' \<notin> set (?q ! 3)"
    using True by (auto intro!: split_on_no_sep [of _ "CHR '',''" P] nth_mem)
  have t: "CHR '','' \<notin> set custom_tag" by (simp add: custom_tag_def)
  have "split_on (CHR '','') (?q ! 0 @ CHR '','' # ?q ! 1 @ CHR '','' # ?q ! 2 @ CHR '','' # ?q ! 3 @
          CHR '','' # custom_tag) = [?q ! 0, ?q ! 1, ?q ! 2, ?q ! 3, custom_tag]"
    using q t by (simp add: split_on_append_sep split_on_plain)
  then show ?thesis
    using True by (simp add: core_fields_def take_four)
next
  case False
  then show ?thesis by simp
qed

lemma reparsed_tuple:
  "map comment_tuple (comment_of_event (d_event c)) =
     (if comment_text c = [] then [] else [(core_fields (emitted_p c), comment_text c)])"
proof (cases "comment_text c = []")
  case True
  then show ?thesis
    by (simp add: comment_of_event_def d_event_def app_text_def)
next
  case False
  show ?thesis
  proof (cases "4 \<le> length (split_on (CHR '','') (emitted_p c))")
    case True
    then show ?thesis
      using parsed_fields [of "emitted_p c"] False
      by (simp add: comment_of_event_def d_event_def app_text_def Let_def comment_tuple_def
          given_p_def comment_text_def)
  next
    case f: False
    then show ?thesis
      using False
      by (simp add: comment_of_event_def d_event_def app_text_def Let_def comment_tuple_def
          given_p_def comment_text_def)
  qed
qed

lemma tuples_of_entries:
  "map comment_tuple (concat (map (\<lambda>c. comment_of_event (d_event c)) cs)) =
     map (\<lambda>c. (expected_fields c, comment_text c)) (filter (\<lambda>c. comment_text c \<noteq> []) cs)"
proof (induction cs)
  case Nil
  then show ?case by simp
next
  case (Cons c cs)
  then show ?case
    using reparsed_tuple [of c] by (simp add: emitted_fields)
qed

text \<open>
  Claim C7, amended. Take comments whose packed attribute and text are made of characters
  that the document carries unchanged: no control character (tab and newline are allowed
  in the text), no carriage return, neither U+FFFE nor U+FFFF, and in the attribute no
  double quote, \<^verbatim>\<open><\<close> or \<^verbatim>\<open>&\<close>. Generating and then parsing yields, in order and for the
  comments with a text that is not empty, the same tuples of time, mode, size, color and
  text, where an attribute with exactly 3 core parts has gained the size 25 between mode
  and color. A comment without text is not among the parsed comments.
\<close>

theorem codec_round_trip:
  assumes "\<forall>c \<in> set cs. attr_plain (given_p c) \<and> text_plain (comment_text c)"
  shows "\<exists>out. parse_xml_content (generate_dandan_xml cs) = Some out \<and>
           map comment_tuple out =
             map (\<lambda>c. (expected_fields c, comment_text c)) (filter (\<lambda>c. comment_text c \<noteq> []) cs)"
proof -
  have "\<forall>c \<in> set cs. attr_plain (emitted_p c) \<and> text_plain (comment_text c)"
    using assms by (simp add: emitted_plain)
  then have "parse_xml_content (generate_dandan_xml cs) =
           Some (concat (map (\<lambda>c. comment_of_event (d_event c)) cs))"
    by (rule parse_generate)
  then show ?thesis
    using tuples_of_entries [of cs] by simp
qed

theorem codec_round_trip_witness:
  "\<exists>out. parse_xml_content (generate_dandan_xml demo_comments) = Some out \<and>
     map comment_tuple out =
       [([''1.5'', ''1'', ''25'', ''16777215''], ''hello''), ([''3'', ''1'', ''25'', ''255''], ''a<b''),
        ([''5'', ''1'', ''25'', ''255''], [CHR 0xE5, CHR 0xBC, CHR 0xB9, CHR '']'', CHR '']'', CHR ''>''])]"
proof -
  have h: "\<forall>c \<in> set demo_comments. attr_plain (given_p c) \<and> text_plain (comment_text c)"
    by (simp add: demo_comments_def demo_comment_def given_p_def comment_text_def attr_plain_def
        text_plain_def utf8_char_def utf8_len_def second_ok_def is_cont_def attr_char_def
        text_char_def nonchar_def valid_char_def dq_def)
  have e: "map (\<lambda>c. (expected_fields c, comment_text c))
             (filter (\<lambda>c. comment_text c \<noteq> []) demo_comments) =
       [([''1.5'', ''1'', ''25'', ''16777215''], ''hello''), ([''3'', ''1'', ''25'', ''255''], ''a<b''),
        ([''5'', ''1'', ''25'', ''255''], [CHR 0xE5, CHR 0xBC, CHR 0xB9, CHR '']'', CHR '']'', CHR ''>''])]"
    by (simp add: demo_comments_def demo_comment_def expected_fields_def given_p_def
        comment_text_def)
  show ?thesis
    using codec_round_trip [OF h] e by simp
qed

text \<open>
  Claim C7, as stated, fails for a comment with empty text: its line has no character
  data, the parsed element has no text, and \<^verbatim>\<open>_parse_xml_content\<close> skips it. One comment goes
  in and none comes back.
\<close>

theorem codec_drops_empty_text:
  "parse_xml_content (generate_dandan_xml [\<lparr>cm_p = Some ''1.5,1,25,16777215'', cm_m = Some []\<rparr>]) =
     Some []"
  by code_simp

text \<open>
  The hypotheses of the amended claim are needed. A text with U+FFFF makes the parser
  raise where the character stands: of three comments the first comes back and neither
  the one with the character nor the one after it. A text with a carriage return is
  outside what the machine covers.
\<close>

lemma forbidden_code_point_stops_parser:
  "parse_xml_content (generate_dandan_xml
     [\<lparr>cm_p = Some ''1,1,25,255'', cm_m = Some ''a''\<rparr>,
      \<lparr>cm_p = Some ''2,1,25,255'', cm_m = Some [CHR ''a'', CHR 0xEF, CHR 0xBF, CHR 0xBF, CHR ''b'']\<rparr>,
      \<lparr>cm_p = Some ''3,1,25,255'', cm_m = Some ''c''\<rparr>]) =
     Some [\<lparr>cm_p = Some ''1,1,25,255,[custom_xml]'', cm_m = Some ''a''\<rparr>]"
  by code_simp

lemma carriage_return_not_modelled:
  "parse_xml_content (generate_dandan_xml
     [\<lparr>cm_p = Some ''1,1,25,255'', cm_m = Some [CHR ''a'', CHR 0x0D, CHR ''b'']\<rparr>]) = None"
  by code_simp

end
